theory Spec2Isabelle
  imports Complex_Main "HOL-Library.AList" "HOL-Library.Multiset"
begin

section \<open>Data model\<close>

text \<open>
  A pixel is the triple \<open>[r, g, b]\<close> that \<open>processImage\<close> pushes for every four bytes of the
  canvas data. Once read from the byte array the channels are JavaScript numbers and all
  arithmetic on them (differences, squares, sums) is done on numbers, so they are modelled
  as unbounded integers; \<open>valid_pixel\<close> records the range a byte array can deliver.
\<close>

type_synonym pixel = "int \<times> int \<times> int"

fun valid_pixel :: "pixel \<Rightarrow> bool" where
  "valid_pixel (r, g, b) = (0 \<le> r \<and> r \<le> 255 \<and> 0 \<le> g \<and> g \<le> 255 \<and> 0 \<le> b \<and> b \<le> 255)"

text \<open>\<open>a[axis]\<close> for \<open>axis\<close> 0, 1 or 2.\<close>

fun channel :: "nat \<Rightarrow> pixel \<Rightarrow> int" where
  "channel axis (r, g, b) = (if axis = 0 then r else if axis = 1 then g else b)"

text \<open>
  An averaged colour. \<open>average()\<close> divides by \<open>this.pixels.length\<close>; on an empty box all three
  quotients are \<open>0 / 0\<close>, which is \<open>NaN\<close>, and \<open>Math.round(NaN)\<close> is \<open>NaN\<close>. That value is kept
  as the constructor \<open>NaN_color\<close> so that the division by zero is a visible branch.
\<close>

datatype color = RGB int int int | NaN_color

record ColorBox =
  pixels :: "pixel list"
  rRange :: int
  gRange :: int
  bRange :: int

section \<open>ColorBox\<close>

text \<open>One pass of the loop of \<open>computeBounds\<close> over the six running minima and maxima.\<close>

fun bounds_step :: "pixel \<Rightarrow> int \<times> int \<times> int \<times> int \<times> int \<times> int \<Rightarrow> int \<times> int \<times> int \<times> int \<times> int \<times> int" where
  "bounds_step (r, g, b) (rMin, rMax, gMin, gMax, bMin, bMax) =
     ((if r < rMin then r else rMin), (if r > rMax then r else rMax),
      (if g < gMin then g else gMin), (if g > gMax then g else gMax),
      (if b < bMin then b else bMin), (if b > bMax then b else bMax))"

definition computeBounds :: "pixel list \<Rightarrow> int \<times> int \<times> int" where
  "computeBounds ps =
     (case fold bounds_step ps (255, 0, 255, 0, 255, 0) of
        (rMin, rMax, gMin, gMax, bMin, bMax) \<Rightarrow> (rMax - rMin, gMax - gMin, bMax - bMin))"

text \<open>The constructor: store the pixels, then compute the three ranges.\<close>

definition ColorBox_new :: "pixel list \<Rightarrow> ColorBox" where
  "ColorBox_new ps =
     (case computeBounds ps of
        (rr, gr, br) \<Rightarrow> \<lparr>pixels = ps, rRange = rr, gRange = gr, bRange = br\<rparr>)"

definition longestAxis :: "ColorBox \<Rightarrow> nat" where
  "longestAxis box =
     (if rRange box \<ge> gRange box \<and> rRange box \<ge> bRange box then 0
      else if gRange box \<ge> rRange box \<and> gRange box \<ge> bRange box then 1
      else 2)"

definition volume :: "ColorBox \<Rightarrow> int" where
  "volume box = rRange box * gRange box * bRange box"

text \<open>
  \<open>split()\<close>: \<open>Array.prototype.sort\<close> is stable and the comparator \<open>a[axis] - b[axis]\<close>
  orders by the channel value, which is what \<open>sort_key\<close> (a stable insertion sort) does.
  \<open>slice(0, mid)\<close> and \<open>slice(mid)\<close> are \<open>take\<close> and \<open>drop\<close>.
\<close>

definition ColorBox_split :: "ColorBox \<Rightarrow> ColorBox \<times> ColorBox" where
  "ColorBox_split box =
     (let axis = longestAxis box;
          sorted_pixels = sort_key (channel axis) (pixels box);
          mid = length sorted_pixels div 2
      in (ColorBox_new (take mid sorted_pixels), ColorBox_new (drop mid sorted_pixels)))"

text \<open>
  \<open>Math.round(s / n)\<close> for an integer sum \<open>s\<close> and a positive count \<open>n\<close>: the nearest
  integer, a tie going up. On integers that is \<open>(2 s + n) div (2 n)\<close> (see
  \<open>round_div_floor\<close> below for the agreement with the real quotient). The floating-point
  quotient of the source is within one unit in the last place of the exact one, which cannot
  move a value below \<open>k + 1/2\<close> onto it while \<open>n\<close> is below \<open>2^45\<close>.
\<close>

definition round_div :: "int \<Rightarrow> nat \<Rightarrow> int" where
  "round_div s n = (2 * s + int n) div (2 * int n)"

fun sum_step :: "pixel \<Rightarrow> int \<times> int \<times> int \<Rightarrow> int \<times> int \<times> int" where
  "sum_step (r, g, b) (rSum, gSum, bSum) = (rSum + r, gSum + g, bSum + b)"

definition average :: "ColorBox \<Rightarrow> color" where
  "average box =
     (case fold sum_step (pixels box) (0, 0, 0) of
        (rSum, gSum, bSum) \<Rightarrow>
          (let n = length (pixels box)
           in if n = 0 then NaN_color
              else RGB (round_div rSum n) (round_div gSum n) (round_div bSum n)))"

section \<open>medianCut\<close>

text \<open>
  The inner \<open>for\<close> loop that looks for the box to split. \<open>maxIdx\<close> is \<open>None\<close> for the
  source's \<open>-1\<close>; \<open>i\<close> is the index of the head of the remaining list.
\<close>

fun find_max :: "ColorBox list \<Rightarrow> nat \<Rightarrow> int \<Rightarrow> nat option \<Rightarrow> nat option" where
  "find_max [] i maxVolume maxIdx = maxIdx"
| "find_max (box # rest) i maxVolume maxIdx =
     (if length (pixels box) > 1 \<and> volume box > maxVolume
      then find_max rest (i + 1) (volume box) (Some i)
      else find_max rest (i + 1) maxVolume maxIdx)"

text \<open>\<open>boxes.splice(maxIdx, 1, box1, box2)\<close>.\<close>

definition splice_at :: "nat \<Rightarrow> 'a \<Rightarrow> 'a \<Rightarrow> 'a list \<Rightarrow> 'a list" where
  "splice_at maxIdx box1 box2 boxes = take maxIdx boxes @ [box1, box2] @ drop (maxIdx + 1) boxes"

text \<open>
  One pass of the body of the \<open>while\<close> loop: \<open>None\<close> is the \<open>break\<close>, otherwise the new
  list. The read \<open>boxes[maxIdx]\<close> is in range whenever \<open>find_max\<close> returns an index
  (\<open>find_max_less\<close> below).
\<close>

definition loop_body :: "ColorBox list \<Rightarrow> ColorBox list option" where
  "loop_body boxes =
     (case find_max boxes 0 (- 1) None of
        None \<Rightarrow> None
      | Some maxIdx \<Rightarrow>
          (case ColorBox_split (boxes ! maxIdx) of
             (box1, box2) \<Rightarrow> Some (splice_at maxIdx box1 box2 boxes)))"

lemma find_max_range:
  "find_max boxes i mv mi = Some k \<Longrightarrow>
     mi = Some k \<or> (i \<le> k \<and> k < i + length boxes \<and> 1 < length (pixels (boxes ! (k - i))))"
proof (induction boxes arbitrary: i mv mi)
  case Nil
  then show ?case by simp
next
  case (Cons box rest)
  show ?case
  proof (cases "length (pixels box) > 1 \<and> volume box > mv")
    case True
    with Cons.prems have "find_max rest (i + 1) (volume box) (Some i) = Some k" by simp
    from Cons.IH [OF this] True show ?thesis by (auto simp: nth_Cons')
  next
    case False
    with Cons.prems have "find_max rest (i + 1) mv mi = Some k" by auto
    from Cons.IH [OF this] show ?thesis by (auto simp: nth_Cons')
  qed
qed

lemma find_max_less: "find_max boxes 0 mv None = Some k \<Longrightarrow> k < length boxes"
  using find_max_range [of boxes 0 mv None k] by simp

lemma find_max_splittable:
  "find_max boxes 0 mv None = Some k \<Longrightarrow> 1 < length (pixels (boxes ! k))"
  using find_max_range [of boxes 0 mv None k] by simp

lemma length_splice_at: "k < length boxes \<Longrightarrow> length (splice_at k b1 b2 boxes) = length boxes + 1"
  by (simp add: splice_at_def)

lemma loop_body_length: "loop_body boxes = Some boxes' \<Longrightarrow> length boxes' = length boxes + 1"
  by (auto simp: loop_body_def length_splice_at find_max_less split: option.splits prod.splits)

text \<open>
  The \<open>while (boxes.length < maxColors)\<close> loop. \<open>maxColors\<close> is whatever number the caller
  passes, so it is an integer that may be zero or negative.
\<close>

function medianCut_loop :: "int \<Rightarrow> ColorBox list \<Rightarrow> ColorBox list" where
  "medianCut_loop maxColors boxes =
     (if int (length boxes) < maxColors then
        (case loop_body boxes of
           None \<Rightarrow> boxes
         | Some boxes' \<Rightarrow> medianCut_loop maxColors boxes')
      else boxes)"
  by pat_completeness auto
termination
proof (relation "measure (\<lambda>(maxColors, boxes). nat (maxColors - int (length boxes)))")
  show "wf (measure (\<lambda>(maxColors, boxes). nat (maxColors - int (length boxes))))" by simp
next
  fix maxColors :: int and boxes boxes' :: "ColorBox list"
  assume lt: "int (length boxes) < maxColors" and body: "loop_body boxes = Some boxes'"
  from loop_body_length [OF body] lt
  show "((maxColors, boxes'), (maxColors, boxes))
        \<in> measure (\<lambda>(maxColors, boxes). nat (maxColors - int (length boxes)))"
    by simp
qed

declare medianCut_loop.simps [simp del]

text \<open>
  The same loop with no termination argument: a run that never left the loop would have
  the value \<open>None\<close>.
\<close>

partial_function (option) medianCut_while :: "int \<Rightarrow> ColorBox list \<Rightarrow> ColorBox list option" where
  "medianCut_while maxColors boxes =
     (if int (length boxes) < maxColors then
        (case loop_body boxes of
           None \<Rightarrow> Some boxes
         | Some boxes' \<Rightarrow> medianCut_while maxColors boxes')
      else Some boxes)"

definition medianCut :: "pixel list \<Rightarrow> int \<Rightarrow> color list" where
  "medianCut pxs maxColors =
     (if length pxs = 0 then []
      else map average (medianCut_loop maxColors [ColorBox_new pxs]))"

section \<open>findNearestColor\<close>

text \<open>
  \<open>minDist\<close> starts at \<open>Infinity\<close>, modelled as \<open>None\<close>; every real distance is below it.
  A palette entry \<open>[NaN, NaN, NaN]\<close> gives the distance \<open>NaN\<close>, and \<open>NaN < minDist\<close> is
  false, so the entry is skipped.
\<close>

fun less_minDist :: "int \<Rightarrow> int option \<Rightarrow> bool" where
  "less_minDist d None = True"
| "less_minDist d (Some m) = (d < m)"

fun nearest_loop :: "int \<Rightarrow> int \<Rightarrow> int \<Rightarrow> color list \<Rightarrow> int option \<Rightarrow> color option \<Rightarrow> color option" where
  "nearest_loop r g b [] minDist nearest = nearest"
| "nearest_loop r g b (NaN_color # rest) minDist nearest = nearest_loop r g b rest minDist nearest"
| "nearest_loop r g b (RGB pr pg pb # rest) minDist nearest =
     (let d = (r - pr)\<^sup>2 + (g - pg)\<^sup>2 + (b - pb)\<^sup>2
      in if less_minDist d minDist
         then nearest_loop r g b rest (Some d) (Some (RGB pr pg pb))
         else nearest_loop r g b rest minDist nearest)"

text \<open>
  \<open>nearest\<close> starts at \<open>palette[0]\<close>, which is \<open>undefined\<close> (here \<open>None\<close>) on an empty
  palette.
\<close>

definition findNearestColor :: "int \<Rightarrow> int \<Rightarrow> int \<Rightarrow> color list \<Rightarrow> color option" where
  "findNearestColor r g b palette =
     nearest_loop r g b palette None (case palette of [] \<Rightarrow> None | c # _ \<Rightarrow> Some c)"

section \<open>Strings: rgbToHex and the codes\<close>

text \<open>The digits \<open>toString\<close> writes, for a radix up to 16.\<close>

definition digits :: string where
  "digits = ''0123456789abcdef''"

definition digit_char :: "nat \<Rightarrow> char" where
  "digit_char d = digits ! d"

text \<open>
  \<open>Number.prototype.toString(radix)\<close> on a non-negative integer, most significant digit
  first. It is used with the radices 16 and 10; the test \<open>radix < 2\<close> only makes the
  recursion well-founded.
\<close>

fun nat_toString :: "nat \<Rightarrow> nat \<Rightarrow> string" where
  "nat_toString radix n =
     (if n < radix \<or> radix < 2 then [digit_char n]
      else nat_toString radix (n div radix) @ [digit_char (n mod radix)])"

declare nat_toString.simps [simp del]

definition int_toString :: "nat \<Rightarrow> int \<Rightarrow> string" where
  "int_toString radix x =
     (if x < 0 then CHR ''-'' # nat_toString radix (nat (- x)) else nat_toString radix (nat x))"

definition padStart :: "nat \<Rightarrow> char \<Rightarrow> string \<Rightarrow> string" where
  "padStart len c s = replicate (len - length s) c @ s"

definition upper_char :: "char \<Rightarrow> char" where
  "upper_char c =
     (case map_of (zip ''abcdefghijklmnopqrstuvwxyz'' ''ABCDEFGHIJKLMNOPQRSTUVWXYZ'') c of
        None \<Rightarrow> c | Some u \<Rightarrow> u)"

definition toUpperCase :: "string \<Rightarrow> string" where
  "toUpperCase s = map upper_char s"

text \<open>
  \<open>rgbToHex\<close>. For the \<open>NaN\<close> colour each component prints as \<open>NaN\<close>, is already three
  characters long, and is upper-cased to \<open>NAN\<close>.
\<close>

definition hex2 :: "int \<Rightarrow> string" where
  "hex2 x = toUpperCase (padStart 2 CHR ''0'' (int_toString 16 x))"

fun rgbToHex :: "color \<Rightarrow> string" where
  "rgbToHex (RGB r g b) = CHR ''#'' # concat (map hex2 [r, g, b])"
| "rgbToHex NaN_color = CHR ''#'' # concat (map (\<lambda>s. toUpperCase (padStart 2 CHR ''0'' s)) [''NaN'', ''NaN'', ''NaN''])"

text \<open>The code of the colour at position \<open>idx\<close> of the sorted list: \<open>C01\<close>, \<open>C02\<close>, ...\<close>

definition code_of :: "nat \<Rightarrow> string" where
  "code_of idx = CHR ''C'' # padStart 2 CHR ''0'' (nat_toString 10 (idx + 1))"

section \<open>processImage\<close>

text \<open>
  The canvas is outside the model: \<open>processImage\<close> starts from the pixel list it collects
  from the image data, with \<open>targetHeight\<close> rows and \<open>targetWidth\<close> columns, and the
  quantized colours it writes back into the image data are left out. The only failures of
  the source are the \<open>TypeError\<close>s of destructuring \<open>undefined\<close>: \<open>pixels[pixelIdx]\<close> past
  the end of the list, and the result of \<open>findNearestColor\<close> on an empty palette.
\<close>

datatype error = TypeError

text \<open>
  \<open>colorCounts\<close> is a \<open>Map\<close>: iteration follows the order in which the keys were first
  set, and setting an existing key keeps its place. That is an association list under
  \<open>AList.update\<close>. \<open>colorCounts.get(hex) || 0\<close> is \<open>0\<close> for a missing key.
\<close>

definition count_hex :: "string \<Rightarrow> (string \<times> nat) list \<Rightarrow> (string \<times> nat) list" where
  "count_hex hex colorCounts =
     AList.update hex ((case map_of colorCounts hex of None \<Rightarrow> 0 | Some c \<Rightarrow> c) + 1) colorCounts"

text \<open>
  The inner loop over the columns of one row, with the number of columns still to do, and
  the state \<open>(pixelIdx, colorCounts, rowData)\<close>.
\<close>

fun row_loop :: "pixel list \<Rightarrow> color list \<Rightarrow> nat \<Rightarrow> nat \<times> (string \<times> nat) list \<times> string list
    \<Rightarrow> error + nat \<times> (string \<times> nat) list \<times> string list" where
  "row_loop pxs palette 0 st = Inr st"
| "row_loop pxs palette (Suc k) (pixelIdx, colorCounts, rowData) =
     (if pixelIdx < length pxs then
        (case pxs ! pixelIdx of
           (r, g, b) \<Rightarrow>
             (case findNearestColor r g b palette of
                None \<Rightarrow> Inl TypeError
              | Some c \<Rightarrow>
                  (let hex = rgbToHex c
                   in row_loop pxs palette k (pixelIdx + 1, count_hex hex colorCounts, rowData @ [hex]))))
      else Inl TypeError)"

text \<open>The outer loop over the rows, with the state \<open>(pixelIdx, colorCounts, gridData)\<close>.\<close>

fun grid_loop :: "pixel list \<Rightarrow> color list \<Rightarrow> nat \<Rightarrow> nat \<Rightarrow> nat \<times> (string \<times> nat) list \<times> string list list
    \<Rightarrow> error + nat \<times> (string \<times> nat) list \<times> string list list" where
  "grid_loop pxs palette targetWidth 0 st = Inr st"
| "grid_loop pxs palette targetWidth (Suc k) (pixelIdx, colorCounts, gridData) =
     (case row_loop pxs palette targetWidth (pixelIdx, colorCounts, []) of
        Inl e \<Rightarrow> Inl e
      | Inr (pixelIdx', colorCounts', rowData) \<Rightarrow>
          grid_loop pxs palette targetWidth k (pixelIdx', colorCounts', gridData @ [rowData]))"

text \<open>
  \<open>sortedColors\<close>: the entries of the map in insertion order, sorted (stably) with the
  comparator \<open>b[1] - a[1]\<close>, that is by descending count, then numbered.
\<close>

definition sortedColors :: "(string \<times> nat) list \<Rightarrow> (string \<times> string \<times> nat) list" where
  "sortedColors colorCounts =
     map (\<lambda>(idx, (hex, cnt)). (code_of idx, hex, cnt))
       (enumerate 0 (sort_key (\<lambda>(hex, cnt). - int cnt) colorCounts))"

text \<open>
  The loop that fills \<open>hexToCode\<close> (a \<open>Map\<close>), \<open>codeToHex\<close> and \<open>codeCounts\<close> (objects with
  string keys, which also keep insertion order).
\<close>

fun assign_step :: "string \<times> string \<times> nat
    \<Rightarrow> (string \<times> string) list \<times> (string \<times> string) list \<times> (string \<times> nat) list
    \<Rightarrow> (string \<times> string) list \<times> (string \<times> string) list \<times> (string \<times> nat) list" where
  "assign_step (code, hex, cnt) (hexToCode, codeToHex, codeCounts) =
     (AList.update hex code hexToCode, AList.update code hex codeToHex, AList.update code cnt codeCounts)"

text \<open>
  The result object. A grid cell is \<open>hexToCode.get(hex)\<close>, which is \<open>undefined\<close> (here
  \<open>None\<close>) for a key the map does not hold.
\<close>

record result =
  grid :: "string option list list"
  colorMap :: "(string \<times> string) list"
  colorCounts :: "(string \<times> nat) list"
  numColors :: nat

definition processImage :: "pixel list \<Rightarrow> nat \<Rightarrow> nat \<Rightarrow> int \<Rightarrow> error + result" where
  "processImage pxs targetHeight targetWidth maxColors =
     (let palette = medianCut pxs maxColors
      in case grid_loop pxs palette targetWidth targetHeight (0, [], []) of
           Inl e \<Rightarrow> Inl e
         | Inr (pixelIdx, counts, gridData) \<Rightarrow>
             (let sorted_colors = sortedColors counts
              in case fold assign_step sorted_colors ([], [], []) of
                   (hexToCode, codeToHex, codeCounts) \<Rightarrow>
                     Inr \<lparr>grid = map (map (map_of hexToCode)) gridData,
                          colorMap = codeToHex,
                          colorCounts = codeCounts,
                          numColors = length sorted_colors\<rparr>))"

section \<open>Notions used to state the properties\<close>

text \<open>
  The box lists a run of \<open>medianCut\<close> on a non-empty buffer goes through: the initial
  one-box list, and each list one pass of the loop body makes from a reachable one while
  the loop condition holds.
\<close>

inductive reachable :: "pixel list \<Rightarrow> int \<Rightarrow> ColorBox list \<Rightarrow> bool" for pxs :: "pixel list" and maxColors :: int where
  start: "pxs \<noteq> [] \<Longrightarrow> reachable pxs maxColors [ColorBox_new pxs]"
| iterate: "reachable pxs maxColors boxes \<Longrightarrow> int (length boxes) < maxColors \<Longrightarrow>
     loop_body boxes = Some boxes' \<Longrightarrow> reachable pxs maxColors boxes'"

text \<open>\<open>medianCut\<close> over the loop that carries no termination argument.\<close>

definition medianCut_partial :: "pixel list \<Rightarrow> int \<Rightarrow> color list option" where
  "medianCut_partial pxs maxColors =
     (if length pxs = 0 then Some []
      else map_option (map average) (medianCut_while maxColors [ColorBox_new pxs]))"

text \<open>A box as the constructor makes it from a non-empty pixel list.\<close>

definition built :: "ColorBox \<Rightarrow> bool" where
  "built b = (pixels b \<noteq> [] \<and> b = ColorBox_new (pixels b))"

text \<open>The buffer of the worked example: 2 rows, 2 columns.\<close>

definition scenario :: "pixel list" where
  "scenario = [(0, 0, 0), (255, 255, 255), (0, 0, 0), (255, 0, 0)]"

text \<open>A buffer of one colour, twice: two boxes, one code.\<close>

definition two_grey :: "pixel list" where
  "two_grey = [(5, 5, 5), (5, 5, 5)]"

text \<open>
  The palette entry a pixel is classified to, as a total function: the result of
  \<open>findNearestColor\<close>, with the \<open>NaN\<close> colour standing in where that is \<open>undefined\<close>;
  and the key \<open>processImage\<close> records for the pixel.
\<close>

definition classify :: "color list \<Rightarrow> pixel \<Rightarrow> color" where
  "classify palette p =
     (case p of (r, g, b) \<Rightarrow>
        (case findNearestColor r g b palette of None \<Rightarrow> NaN_color | Some c \<Rightarrow> c))"

definition hex_of :: "color list \<Rightarrow> pixel \<Rightarrow> string" where
  "hex_of palette p = rgbToHex (classify palette p)"

text \<open>The first \<open>k\<close> rows of width \<open>w\<close> of a row-major list.\<close>

fun chunk :: "nat \<Rightarrow> nat \<Rightarrow> 'a list \<Rightarrow> 'a list list" where
  "chunk w 0 xs = []"
| "chunk w (Suc k) xs = take w xs # chunk w k (drop w xs)"

text \<open>The occurrence counts of a scan, in the \<open>Map\<close> that \<open>processImage\<close> builds.\<close>

definition tally :: "string list \<Rightarrow> (string \<times> nat) list" where
  "tally hs = fold count_hex hs []"

text \<open>The position at which a value is first seen in a scan.\<close>

fun first_index :: "'a list \<Rightarrow> 'a \<Rightarrow> nat" where
  "first_index [] x = 0"
| "first_index (y # ys) x = (if x = y then 0 else Suc (first_index ys x))"

text \<open>Reading a digit string back: the value of a digit, and of a string in a radix.\<close>

definition digit_val :: "char \<Rightarrow> nat" where
  "digit_val c = first_index digits c"

definition string_value :: "nat \<Rightarrow> string \<Rightarrow> nat" where
  "string_value radix s = foldl (\<lambda>a c. radix * a + digit_val c) 0 s"

text \<open>The sort key of \<open>sortedColors\<close>: the comparator \<open>b[1] - a[1]\<close> orders by it.\<close>

definition by_count :: "string \<times> nat \<Rightarrow> int" where
  "by_count = (\<lambda>(hex, cnt). - int cnt)"

text \<open>
  The keys recorded by the row-major scan of \<open>processImage\<close>, one per grid cell, and the
  entries of its counting map after the sort.
\<close>

definition scan :: "pixel list \<Rightarrow> nat \<Rightarrow> nat \<Rightarrow> int \<Rightarrow> string list" where
  "scan pxs h w maxColors = map (hex_of (medianCut pxs maxColors)) (take (h * w) pxs)"

definition ranked :: "string list \<Rightarrow> (string \<times> nat) list" where
  "ranked hs = sort_key by_count (tally hs)"

text \<open>
  The arithmetic mean of a list of integers, rounded to the nearest integer with a tie
  going up, over the reals.
\<close>

definition mean_round :: "int list \<Rightarrow> int" where
  "mean_round xs = \<lfloor>real_of_int (sum_list xs) / real (length xs) + 1 / 2\<rfloor>"

text \<open>The squared Euclidean distance between a pixel and a palette colour.\<close>

definition sq_dist :: "int \<Rightarrow> int \<Rightarrow> int \<Rightarrow> int \<Rightarrow> int \<Rightarrow> int \<Rightarrow> int" where
  "sq_dist r g b pr pg pb = (r - pr)\<^sup>2 + (g - pg)\<^sup>2 + (b - pb)\<^sup>2"

text \<open>
  The palette entry \<open>(pr, pg, pb)\<close>, standing between the entries \<open>before\<close> and \<open>after\<close>
  it, is the first one at the least distance from the pixel \<open>(r, g, b)\<close>: every colour
  before it is strictly farther, every colour after it at least as far.
\<close>

definition first_least :: "int \<Rightarrow> int \<Rightarrow> int \<Rightarrow> color list \<Rightarrow> int \<Rightarrow> int \<Rightarrow> int \<Rightarrow> color list \<Rightarrow> bool" where
  "first_least r g b before pr pg pb after =
     ((\<forall>qr qg qb. RGB qr qg qb \<in> set before \<longrightarrow> sq_dist r g b pr pg pb < sq_dist r g b qr qg qb)
      \<and> (\<forall>qr qg qb. RGB qr qg qb \<in> set after \<longrightarrow> sq_dist r g b pr pg pb \<le> sq_dist r g b qr qg qb))"

text \<open>
  A scan of \<open>rest\<close> that started with the least distance \<open>md\<close> ends at an entry of \<open>rest\<close>:
  the first of its entries at the least distance, which is below \<open>md\<close>.
\<close>

definition hit :: "int \<Rightarrow> int \<Rightarrow> int \<Rightarrow> color list \<Rightarrow> int option \<Rightarrow> color option \<Rightarrow> bool" where
  "hit r g b rest md res =
     (\<exists>before pr pg pb after. rest = before @ RGB pr pg pb # after \<and> res = Some (RGB pr pg pb)
        \<and> less_minDist (sq_dist r g b pr pg pb) md \<and> first_least r g b before pr pg pb after)"

text \<open>
  The order in which the distinct keys of a scan receive their codes: a key with more
  occurrences comes first, and of two keys with the same number of occurrences the one
  first seen earlier.
\<close>

definition ranks_before :: "string list \<Rightarrow> string \<Rightarrow> string \<Rightarrow> bool" where
  "ranks_before hs x y =
     (count_list hs y < count_list hs x
      \<or> (count_list hs x = count_list hs y \<and> first_index hs x < first_index hs y))"

text \<open>A row of three pixels: white once, then black twice.\<close>

definition white_black_black :: "pixel list" where
  "white_black_black = [(255, 255, 255), (0, 0, 0), (0, 0, 0)]"

text \<open>A palette colour whose channels are bytes.\<close>

fun valid_color :: "color \<Rightarrow> bool" where
  "valid_color (RGB r g b) = valid_pixel (r, g, b)"
| "valid_color NaN_color = False"

text \<open>The upper-case digit \<open>rgbToHex\<close> prints for a value below 16.\<close>

definition upper_digit :: "nat \<Rightarrow> char" where
  "upper_digit d = upper_char (digit_char d)"

section \<open>Boxes and the partitioning loop\<close>

lemma pixels_new [simp]: "pixels (ColorBox_new ps) = ps"
  by (simp add: ColorBox_new_def split: prod.splits)

lemma split_pixels:
  "ColorBox_split box = (b1, b2) \<Longrightarrow>
     pixels b1 = take (length (pixels box) div 2) (sort_key (channel (longestAxis box)) (pixels box))
   \<and> pixels b2 = drop (length (pixels box) div 2) (sort_key (channel (longestAxis box)) (pixels box))"
  by (auto simp: ColorBox_split_def Let_def)

lemma split_lengths:
  "ColorBox_split box = (b1, b2) \<Longrightarrow>
     length (pixels b1) = length (pixels box) div 2
   \<and> length (pixels b2) = length (pixels box) - length (pixels box) div 2"
  by (auto dest!: split_pixels)

lemma split_set:
  assumes "ColorBox_split box = (b1, b2)"
  shows "set (pixels b1) \<union> set (pixels b2) = set (pixels box)"
proof -
  let ?s = "sort_key (channel (longestAxis box)) (pixels box)"
  let ?m = "length (pixels box) div 2"
  have "set (take ?m ?s) \<union> set (drop ?m ?s) = set (take ?m ?s @ drop ?m ?s)" by (simp only: set_append)
  also have "\<dots> = set (pixels box)" by (simp only: append_take_drop_id set_sort)
  finally show ?thesis using split_pixels [OF assms] by simp
qed

lemma split_new:
  "ColorBox_split box = (b1, b2) \<Longrightarrow> b1 = ColorBox_new (pixels b1) \<and> b2 = ColorBox_new (pixels b2)"
  by (auto simp: ColorBox_split_def Let_def)

lemma fold_bounds:
  "fold bounds_step ps (a1, a2, a3, a4, a5, a6) = (rMin, rMax, gMin, gMax, bMin, bMax) \<Longrightarrow>
     rMin \<le> a1 \<and> a2 \<le> rMax \<and> gMin \<le> a3 \<and> a4 \<le> gMax \<and> bMin \<le> a5 \<and> a6 \<le> bMax
     \<and> (\<forall>(r, g, b) \<in> set ps. rMin \<le> r \<and> r \<le> rMax \<and> gMin \<le> g \<and> g \<le> gMax \<and> bMin \<le> b \<and> b \<le> bMax)"
proof (induction ps arbitrary: a1 a2 a3 a4 a5 a6)
  case Nil
  then show ?case by simp
next
  case (Cons p ps)
  obtain r g b where p: "p = (r, g, b)" by (cases p) auto
  from Cons.prems
  have "fold bounds_step ps
          ((if r < a1 then r else a1), (if r > a2 then r else a2),
           (if g < a3 then g else a3), (if g > a4 then g else a4),
           (if b < a5 then b else a5), (if b > a6 then b else a6))
        = (rMin, rMax, gMin, gMax, bMin, bMax)"
    by (simp add: p)
  from Cons.IH [OF this] show ?case
    by (simp add: p split: if_splits)
qed

lemma ranges_nonneg:
  assumes "ps \<noteq> []"
  shows "0 \<le> rRange (ColorBox_new ps) \<and> 0 \<le> gRange (ColorBox_new ps) \<and> 0 \<le> bRange (ColorBox_new ps)"
proof -
  obtain rMin rMax gMin gMax bMin bMax
    where f: "fold bounds_step ps (255, 0, 255, 0, 255, 0) = (rMin, rMax, gMin, gMax, bMin, bMax)"
    by (metis prod_cases3)
  from assms obtain r g b where m: "(r, g, b) \<in> set ps"
    by (metis last_in_set prod_cases3)
  from fold_bounds [OF f] m
  have "rMin \<le> r \<and> r \<le> rMax \<and> gMin \<le> g \<and> g \<le> gMax \<and> bMin \<le> b \<and> b \<le> bMax" by auto
  then show ?thesis by (simp add: ColorBox_new_def computeBounds_def f)
qed

lemma volume_nonneg: "ps \<noteq> [] \<Longrightarrow> 0 \<le> volume (ColorBox_new ps)"
  using ranges_nonneg [of ps] by (simp add: volume_def)

lemma find_max_None:
  "find_max boxes i mv mi = None \<Longrightarrow>
     mi = None \<and> (\<forall>b \<in> set boxes. length (pixels b) \<le> 1 \<or> volume b \<le> mv)"
proof (induction boxes arbitrary: i mv mi)
  case Nil
  then show ?case by simp
next
  case (Cons box rest)
  show ?case
  proof (cases "length (pixels box) > 1 \<and> volume box > mv")
    case True
    with Cons.prems have "find_max rest (i + 1) (volume box) (Some i) = None" by simp
    from Cons.IH [OF this] show ?thesis by simp
  next
    case False
    with Cons.prems have "find_max rest (i + 1) mv mi = None" by auto
    from Cons.IH [OF this] False show ?thesis by auto
  qed
qed

lemma find_max_None_conv:
  "\<forall>b \<in> set boxes. length (pixels b) \<le> 1 \<or> volume b \<le> mv \<Longrightarrow> find_max boxes i mv None = None"
  by (induction boxes arbitrary: i) auto

lemma set_splice_at: "set (splice_at k b1 b2 boxes) \<subseteq> {b1, b2} \<union> set boxes"
  using set_take_subset [of k boxes] set_drop_subset [of "k + 1" boxes]
  by (auto simp: splice_at_def)

lemma loop_body_cases:
  assumes "loop_body boxes = Some boxes'"
  obtains k b1 b2 where "k < length boxes" "1 < length (pixels (boxes ! k))"
    "ColorBox_split (boxes ! k) = (b1, b2)" "boxes' = splice_at k b1 b2 boxes"
proof -
  from assms obtain k where fm: "find_max boxes 0 (- 1) None = Some k"
    by (auto simp: loop_body_def split: option.splits)
  obtain b1 b2 where sp: "ColorBox_split (boxes ! k) = (b1, b2)" by (cases "ColorBox_split (boxes ! k)")
  from assms fm sp have "boxes' = splice_at k b1 b2 boxes" by (simp add: loop_body_def)
  with find_max_less [OF fm] find_max_splittable [OF fm] sp that show thesis by blast
qed

lemma loop_body_preserves:
  assumes body: "loop_body boxes = Some boxes'"
    and inv: "\<forall>b \<in> set boxes. P b"
    and step: "\<And>b b1 b2. P b \<Longrightarrow> 1 < length (pixels b) \<Longrightarrow> ColorBox_split b = (b1, b2) \<Longrightarrow> P b1 \<and> P b2"
  shows "\<forall>b \<in> set boxes'. P b"
proof -
  from body obtain k b1 b2 where k: "k < length boxes" "1 < length (pixels (boxes ! k))"
    "ColorBox_split (boxes ! k) = (b1, b2)" "boxes' = splice_at k b1 b2 boxes"
    by (rule loop_body_cases)
  from inv k(1) have "P (boxes ! k)" by simp
  from step [OF this k(2) k(3)] have "P b1" "P b2" by simp_all
  with inv set_splice_at [of k b1 b2 boxes] show ?thesis unfolding k(4) by auto
qed

lemma medianCut_loop_preserves:
  assumes inv: "\<forall>b \<in> set boxes. P b"
    and step: "\<And>b b1 b2. P b \<Longrightarrow> 1 < length (pixels b) \<Longrightarrow> ColorBox_split b = (b1, b2) \<Longrightarrow> P b1 \<and> P b2"
  shows "\<forall>b \<in> set (medianCut_loop maxColors boxes). P b"
  using inv
proof (induction maxColors boxes rule: medianCut_loop.induct)
  case (1 maxColors boxes)
  show ?case
  proof (cases "int (length boxes) < maxColors")
    case False
    with "1.prems" show ?thesis by (simp add: medianCut_loop.simps)
  next
    case True
    show ?thesis
    proof (cases "loop_body boxes")
      case None
      with True "1.prems" show ?thesis by (simp add: medianCut_loop.simps)
    next
      case (Some boxes')
      have "\<forall>b \<in> set boxes'. P b" by (rule loop_body_preserves [OF Some "1.prems" step])
      from "1.IH" [OF True Some this] True Some show ?thesis
        by (simp add: medianCut_loop.simps [of maxColors boxes])
    qed
  qed
qed

lemma medianCut_loop_length_ge: "length boxes \<le> length (medianCut_loop maxColors boxes)"
proof (induction maxColors boxes rule: medianCut_loop.induct)
  case (1 maxColors boxes)
  show ?case
  proof (cases "int (length boxes) < maxColors")
    case False
    then show ?thesis by (simp add: medianCut_loop.simps)
  next
    case True
    show ?thesis
    proof (cases "loop_body boxes")
      case None
      with True show ?thesis by (simp add: medianCut_loop.simps)
    next
      case (Some boxes')
      from "1.IH" [OF True Some] loop_body_length [OF Some] True Some show ?thesis
        by (simp add: medianCut_loop.simps [of maxColors boxes])
    qed
  qed
qed

lemma medianCut_loop_length_le:
  "int (length boxes) \<le> maxColors \<Longrightarrow> int (length (medianCut_loop maxColors boxes)) \<le> maxColors"
proof (induction maxColors boxes rule: medianCut_loop.induct)
  case (1 maxColors boxes)
  show ?case
  proof (cases "int (length boxes) < maxColors")
    case False
    with "1.prems" show ?thesis by (simp add: medianCut_loop.simps)
  next
    case True
    show ?thesis
    proof (cases "loop_body boxes")
      case None
      with True show ?thesis by (simp add: medianCut_loop.simps)
    next
      case (Some boxes')
      from loop_body_length [OF Some] True have "int (length boxes') \<le> maxColors" by simp
      from "1.IH" [OF True Some this] True Some show ?thesis
        by (simp add: medianCut_loop.simps [of maxColors boxes])
    qed
  qed
qed

lemma medianCut_loop_stops:
  "maxColors \<le> int (length (medianCut_loop maxColors boxes))
   \<or> loop_body (medianCut_loop maxColors boxes) = None"
proof (induction maxColors boxes rule: medianCut_loop.induct)
  case (1 maxColors boxes)
  show ?case
  proof (cases "int (length boxes) < maxColors")
    case False
    then show ?thesis by (simp add: medianCut_loop.simps)
  next
    case True
    show ?thesis
    proof (cases "loop_body boxes")
      case None
      with True show ?thesis by (simp add: medianCut_loop.simps)
    next
      case (Some boxes')
      from "1.IH" [OF True Some] True Some show ?thesis
        by (simp add: medianCut_loop.simps [of maxColors boxes])
    qed
  qed
qed

lemma medianCut_while_total: "medianCut_while maxColors boxes = Some (medianCut_loop maxColors boxes)"
proof (induction maxColors boxes rule: medianCut_loop.induct)
  case (1 maxColors boxes)
  show ?case
  proof (cases "int (length boxes) < maxColors")
    case False
    then show ?thesis by (simp add: medianCut_loop.simps medianCut_while.simps)
  next
    case True
    show ?thesis
    proof (cases "loop_body boxes")
      case None
      with True show ?thesis by (simp add: medianCut_loop.simps medianCut_while.simps)
    next
      case (Some boxes')
      from "1.IH" [OF True Some] True Some show ?thesis
        by (simp add: medianCut_loop.simps [of maxColors boxes] medianCut_while.simps [of maxColors boxes])
    qed
  qed
qed

lemma built_split:
  assumes "built b" "1 < length (pixels b)" "ColorBox_split b = (b1, b2)"
  shows "built b1 \<and> built b2"
proof -
  from split_lengths [OF assms(3)] assms(2)
  have "0 < length (pixels b1)" "0 < length (pixels b2)" by simp_all
  with split_new [OF assms(3)] show ?thesis by (simp add: built_def)
qed

lemma reachable_built: "reachable pxs maxColors boxes \<Longrightarrow> \<forall>b \<in> set boxes. built b"
proof (induction rule: reachable.induct)
  case start
  then show ?case by (simp add: built_def)
next
  case (iterate boxes boxes')
  show ?case by (rule loop_body_preserves [OF iterate(3) iterate.IH built_split])
qed

lemma reachable_loop:
  "reachable pxs maxColors boxes \<Longrightarrow> reachable pxs maxColors (medianCut_loop maxColors boxes)"
proof (induction maxColors boxes rule: medianCut_loop.induct)
  case (1 maxColors boxes)
  show ?case
  proof (cases "int (length boxes) < maxColors")
    case False
    with "1.prems" show ?thesis by (simp add: medianCut_loop.simps)
  next
    case True
    show ?thesis
    proof (cases "loop_body boxes")
      case None
      with True "1.prems" show ?thesis by (simp add: medianCut_loop.simps)
    next
      case (Some boxes')
      have "reachable pxs maxColors boxes'" by (rule reachable.iterate [OF "1.prems" True Some])
      from "1.IH" [OF True Some this] True Some show ?thesis
        by (simp add: medianCut_loop.simps [of maxColors boxes])
    qed
  qed
qed

lemma built_volume: "built b \<Longrightarrow> 0 \<le> volume b"
  using volume_nonneg [of "pixels b"] by (simp add: built_def)

lemma loop_body_None_iff:
  assumes "\<forall>b \<in> set boxes. built b"
  shows "loop_body boxes = None \<longleftrightarrow> (\<forall>b \<in> set boxes. length (pixels b) \<le> 1)"
proof
  assume "loop_body boxes = None"
  then have "find_max boxes 0 (- 1) None = None"
    by (auto simp: loop_body_def split: option.splits prod.splits)
  from find_max_None [OF this] have "\<forall>b \<in> set boxes. length (pixels b) \<le> 1 \<or> volume b \<le> - 1" by simp
  with assms built_volume show "\<forall>b \<in> set boxes. length (pixels b) \<le> 1" by fastforce
next
  assume "\<forall>b \<in> set boxes. length (pixels b) \<le> 1"
  then have "find_max boxes 0 (- 1) None = None" by (intro find_max_None_conv) auto
  then show "loop_body boxes = None" by (simp add: loop_body_def)
qed

lemma fold_sum_step:
  "fold sum_step ps (a, b, c) =
     (a + sum_list (map fst ps), b + sum_list (map (\<lambda>p. fst (snd p)) ps), c + sum_list (map (\<lambda>p. snd (snd p)) ps))"
  by (induction ps arbitrary: a b c) auto

lemma average_nonempty:
  "pixels box \<noteq> [] \<Longrightarrow>
     average box = RGB (round_div (sum_list (map fst (pixels box))) (length (pixels box)))
                       (round_div (sum_list (map (\<lambda>p. fst (snd p)) (pixels box))) (length (pixels box)))
                       (round_div (sum_list (map (\<lambda>p. snd (snd p)) (pixels box))) (length (pixels box)))"
  by (simp add: average_def fold_sum_step Let_def)

lemma average_not_NaN: "pixels box \<noteq> [] \<Longrightarrow> average box \<noteq> NaN_color"
  by (simp add: average_nonempty)

lemma medianCut_no_NaN: "NaN_color \<notin> set (medianCut pxs maxColors)"
proof (cases "pxs = []")
  case True
  then show ?thesis by (simp add: medianCut_def)
next
  case False
  from reachable_built [OF reachable_loop [OF reachable.start [OF False]]]
  have "\<forall>b \<in> set (medianCut_loop maxColors [ColorBox_new pxs]). average b \<noteq> NaN_color"
    by (auto simp: built_def average_not_NaN)
  with False show ?thesis by (auto simp: medianCut_def)
qed

section \<open>Classification and assembly\<close>

lemma nearest_loop_mem:
  "nearest_loop r g b rest md nr = nr \<or> nearest_loop r g b rest md nr \<in> Some ` set rest"
proof (induction rest arbitrary: md nr)
  case Nil
  then show ?case by simp
next
  case (Cons c rest)
  show ?case
  proof (cases c)
    case NaN_color
    with Cons.IH [of md nr] show ?thesis by auto
  next
    case (RGB pr pg pb)
    let ?d = "(r - pr)\<^sup>2 + (g - pg)\<^sup>2 + (b - pb)\<^sup>2"
    show ?thesis
    proof (cases "less_minDist ?d md")
      case True
      with RGB Cons.IH [of "Some ?d" "Some (RGB pr pg pb)"] show ?thesis by (auto simp: Let_def)
    next
      case False
      with RGB Cons.IH [of md nr] show ?thesis by (auto simp: Let_def)
    qed
  qed
qed

lemma findNearestColor_mem:
  "palette \<noteq> [] \<Longrightarrow> findNearestColor r g b palette \<in> Some ` set palette"
  using nearest_loop_mem [of r g b palette None "Some (hd palette)"]
  by (cases palette) (auto simp: findNearestColor_def)

lemma findNearestColor_classify:
  "palette \<noteq> [] \<Longrightarrow> findNearestColor r g b palette = Some (classify palette (r, g, b))"
  using findNearestColor_mem [of palette r g b] by (auto simp: classify_def)

lemma classify_mem: "palette \<noteq> [] \<Longrightarrow> classify palette p \<in> set palette"
  using findNearestColor_mem [of palette "fst p" "fst (snd p)" "snd (snd p)"]
  by (cases p) (auto simp: classify_def)

lemma row_loop_ok:
  "palette \<noteq> [] \<or> k = 0 \<Longrightarrow> idx + k \<le> length pxs \<Longrightarrow>
     row_loop pxs palette k (idx, cc, row) =
       Inr (idx + k, fold count_hex (map (hex_of palette) (take k (drop idx pxs))) cc,
            row @ map (hex_of palette) (take k (drop idx pxs)))"
proof (induction k arbitrary: idx cc row)
  case 0
  then show ?case by simp
next
  case (Suc k)
  then have ne: "palette \<noteq> []" and lt: "idx < length pxs" and le: "Suc idx + k \<le> length pxs" by simp_all
  obtain r g b where p: "pxs ! idx = (r, g, b)" by (cases "pxs ! idx") auto
  have d: "drop idx pxs = (r, g, b) # drop (Suc idx) pxs"
    using Cons_nth_drop_Suc [OF lt] p by simp
  have h: "rgbToHex (classify palette (r, g, b)) = hex_of palette (r, g, b)" by (simp add: hex_of_def)
  from ne have "palette \<noteq> [] \<or> k = 0" by simp
  note IH = Suc.IH [OF this le]
  show ?case
    by (simp add: lt p findNearestColor_classify [OF ne] Let_def h IH d)
qed

lemma grid_loop_ok:
  "palette \<noteq> [] \<or> w = 0 \<or> k = 0 \<Longrightarrow> idx + k * w \<le> length pxs \<Longrightarrow>
     grid_loop pxs palette w k (idx, cc, gd) =
       Inr (idx + k * w, fold count_hex (map (hex_of palette) (take (k * w) (drop idx pxs))) cc,
            gd @ chunk w k (map (hex_of palette) (drop idx pxs)))"
proof (induction k arbitrary: idx cc gd)
  case 0
  then show ?case by simp
next
  case (Suc k)
  then have c: "palette \<noteq> [] \<or> w = 0" and le1: "idx + w \<le> length pxs"
    and le2: "(idx + w) + k * w \<le> length pxs" by (simp_all add: algebra_simps)
  from c have c1: "palette \<noteq> [] \<or> w = 0" and c2: "palette \<noteq> [] \<or> w = 0 \<or> k = 0" by simp_all
  note R = row_loop_ok [OF c1 le1, of cc "[]"]
  note IH = Suc.IH [OF c2 le2]
  have t: "take (w + k * w) (drop idx pxs) = take w (drop idx pxs) @ take (k * w) (drop (idx + w) pxs)"
    by (simp add: take_add add.commute)
  show ?case
    by (simp add: R IH t drop_map take_map add.commute)
qed

subsection \<open>The tally\<close>

lemma tally_snoc: "tally (hs @ [h]) = count_hex h (tally hs)"
  by (simp add: tally_def)

lemma first_index_less: "x \<in> set xs \<Longrightarrow> first_index xs x < length xs"
  by (induction xs) auto

lemma first_index_append:
  "first_index (xs @ ys) x = (if x \<in> set xs then first_index xs x else length xs + first_index ys x)"
  by (induction xs) auto

lemma update_absent: "k \<notin> fst ` set al \<Longrightarrow> AList.update k v al = al @ [(k, v)]"
  by (induction al) auto

lemma sum_update_present:
  "distinct (map fst al) \<Longrightarrow> map_of al k = Some c \<Longrightarrow>
     sum_list (map snd (AList.update k v al)) + c = sum_list (map snd al) + (v :: nat)"
proof (induction al)
  case Nil
  then show ?case by simp
next
  case (Cons p al)
  show ?case
  proof (cases "fst p = k")
    case True
    with Cons.prems show ?thesis by (cases p) auto
  next
    case False
    with Cons.prems have "map_of al k = Some c" "distinct (map fst al)" by auto
    from Cons.IH [OF this(2) this(1)] False show ?thesis by (cases p) auto
  qed
qed

lemma tally_keys:
  "distinct (map fst (tally hs)) \<and> set (map fst (tally hs)) = set hs
   \<and> sorted_wrt (\<lambda>a b. first_index hs a < first_index hs b) (map fst (tally hs))"
proof (induction hs rule: rev_induct)
  case Nil
  then show ?case by (simp add: tally_def)
next
  case (snoc h hs)
  let ?T = "tally hs"
  let ?v = "(case map_of ?T h of None \<Rightarrow> 0 | Some c \<Rightarrow> c) + 1"
  from snoc have d: "distinct (map fst ?T)" and k: "set (map fst ?T) = set hs"
    and o: "sorted_wrt (\<lambda>a b. first_index hs a < first_index hs b) (map fst ?T)" by simp_all
  have keys: "map fst (tally (hs @ [h])) = (if h \<in> set hs then map fst ?T else map fst ?T @ [h])"
    using k by (simp add: tally_snoc count_hex_def update_keys)
  have o': "sorted_wrt (\<lambda>a b. first_index (hs @ [h]) a < first_index (hs @ [h]) b) (map fst ?T)"
    by (rule sorted_wrt_mono_rel [OF _ o]) (use k in \<open>auto simp: first_index_append\<close>)
  show ?case
  proof (cases "h \<in> set hs")
    case True
    with keys d k o' show ?thesis by auto
  next
    case False
    have "\<forall>a \<in> set (map fst ?T). first_index (hs @ [h]) a < first_index (hs @ [h]) h"
      using k False by (auto simp: first_index_append first_index_less)
    with keys d k o' False show ?thesis by (auto simp: sorted_wrt_append)
  qed
qed

lemma tally_map_of:
  "map_of (tally hs) k = (if k \<in> set hs then Some (count_list hs k) else None)"
proof (induction hs rule: rev_induct)
  case Nil
  then show ?case by (simp add: tally_def)
next
  case (snoc h hs)
  then show ?case by (auto simp: tally_snoc count_hex_def update_conv')
qed

lemma tally_counts: "(k, c) \<in> set (tally hs) \<Longrightarrow> c = count_list hs k \<and> k \<in> set hs"
proof -
  assume m: "(k, c) \<in> set (tally hs)"
  from tally_keys [of hs] have "distinct (map fst (tally hs))" by simp
  with m have "map_of (tally hs) k = Some c" by simp
  then show ?thesis by (auto simp: tally_map_of split: if_splits)
qed

lemma tally_sum: "sum_list (map snd (tally hs)) = length hs"
proof (induction hs rule: rev_induct)
  case Nil
  then show ?case by (simp add: tally_def)
next
  case (snoc h hs)
  let ?T = "tally hs"
  from tally_keys [of hs] have d: "distinct (map fst ?T)" and k: "set (map fst ?T) = set hs" by simp_all
  show ?case
  proof (cases "h \<in> set hs")
    case True
    then have m: "map_of ?T h = Some (count_list hs h)" by (simp add: tally_map_of)
    from sum_update_present [OF d m, of "count_list hs h + 1"] snoc m
    show ?thesis by (simp add: tally_snoc count_hex_def)
  next
    case False
    then have m: "map_of ?T h = None" by (simp add: tally_map_of)
    from False k have "h \<notin> fst ` set ?T" by auto
    from update_absent [OF this] snoc m show ?thesis by (simp add: tally_snoc count_hex_def)
  qed
qed

subsection \<open>The stable sort\<close>

lemma sorted_wrt_insort_key:
  "sorted (map f ys) \<Longrightarrow> sorted_wrt P ys \<Longrightarrow> (\<forall>y \<in> set ys. f x \<le> f y \<longrightarrow> P x y) \<Longrightarrow>
     (\<forall>y \<in> set ys. f y < f x \<longrightarrow> P y x) \<Longrightarrow> sorted_wrt P (insort_key f x ys)"
proof (induction ys)
  case Nil
  then show ?case by simp
next
  case (Cons y ys)
  show ?case
  proof (cases "f x \<le> f y")
    case True
    with Cons.prems(1) have "\<forall>z \<in> set (y # ys). f x \<le> f z" by auto
    with Cons.prems(3) have "\<forall>z \<in> set (y # ys). P x z" by blast
    with True Cons.prems(2) show ?thesis by simp
  next
    case False
    with Cons.prems(4) have "P y x" by simp
    moreover from Cons.prems have "sorted_wrt P (insort_key f x ys)" by (intro Cons.IH) auto
    ultimately show ?thesis using False Cons.prems(2) by (auto simp: set_insort_key)
  qed
qed

lemma sort_key_order:
  "distinct xs \<Longrightarrow>
     sorted_wrt (\<lambda>a b. f a < f b \<or> (f a = f b \<and> first_index xs a < first_index xs b)) (sort_key f xs)"
proof (induction xs)
  case Nil
  then show ?case by simp
next
  case (Cons x xs)
  let ?R = "\<lambda>zs a b. f a < f b \<or> (f a = f b \<and> first_index zs a < first_index zs b)"
  from Cons have IH: "sorted_wrt (?R xs) (sort_key f xs)" and nx: "x \<notin> set xs" by simp_all
  have 1: "sorted_wrt (?R (x # xs)) (sort_key f xs)"
    by (rule sorted_wrt_mono_rel [OF _ IH]) (use nx in auto)
  have 2: "sorted (map f (sort_key f xs))" by simp
  have 3: "\<forall>y \<in> set (sort_key f xs). f x \<le> f y \<longrightarrow> ?R (x # xs) x y" using nx by auto
  have 4: "\<forall>y \<in> set (sort_key f xs). f y < f x \<longrightarrow> ?R (x # xs) y x" by auto
  from sorted_wrt_insort_key [OF 2 1 3 4] show ?case by simp
qed

lemma sorted_wrt_first_index:
  "sorted_wrt Q xs \<Longrightarrow> a \<in> set xs \<Longrightarrow> b \<in> set xs \<Longrightarrow> first_index xs a < first_index xs b \<Longrightarrow> Q a b"
  by (induction xs) (auto split: if_splits)

subsection \<open>The codes\<close>

lemma first_index_nth: "distinct xs \<Longrightarrow> i < length xs \<Longrightarrow> first_index xs (xs ! i) = i"
proof (induction xs arbitrary: i)
  case Nil
  then show ?case by simp
next
  case (Cons x xs)
  then show ?case by (cases i) (auto simp: nth_Cons')
qed

lemma distinct_digits: "distinct digits"
  unfolding digits_def by simp

lemma length_digits: "length digits = 16"
  unfolding digits_def by simp

lemma digit_val_char:
  assumes "d < 16"
  shows "digit_val (digit_char d) = d"
proof -
  from assms have "d < length digits" by (simp only: length_digits)
  from first_index_nth [OF distinct_digits this] show ?thesis
    by (simp only: digit_val_def digit_char_def)
qed

lemma digit_val_zero: "digit_val CHR ''0'' = 0"
  by (simp add: digit_val_def digits_def)

lemma string_value_snoc: "string_value radix (s @ [c]) = radix * string_value radix s + digit_val c"
  by (simp add: string_value_def)

lemma string_value_toString:
  "2 \<le> radix \<Longrightarrow> radix \<le> 16 \<Longrightarrow> string_value radix (nat_toString radix n) = n"
proof (induction radix n rule: nat_toString.induct)
  case (1 radix n)
  show ?case
  proof (cases "n < radix")
    case True
    with "1.prems" have "n < 16" by simp
    with True show ?thesis
      by (simp add: nat_toString.simps [of radix n] string_value_def digit_val_char)
  next
    case False
    with "1.prems" have c: "\<not> (n < radix \<or> radix < 2)" by simp
    from "1.prems" have "n mod radix < 16"
      by (meson less_le_trans mod_less_divisor pos2 less_le_trans)
    with "1.IH" [OF c "1.prems"] c show ?thesis
      by (simp add: nat_toString.simps [of radix n] string_value_snoc digit_val_char)
  qed
qed

lemma string_value_zeros: "foldl (\<lambda>a c. radix * a + digit_val c) 0 (replicate k CHR ''0'') = 0"
  by (induction k) (simp_all add: digit_val_zero)

lemma string_value_padStart: "string_value radix (padStart len CHR ''0'' s) = string_value radix s"
  by (simp add: string_value_def padStart_def string_value_zeros)

lemma code_of_value: "string_value 10 (tl (code_of idx)) = idx + 1"
  by (simp add: code_of_def string_value_padStart string_value_toString)

lemma code_of_inj:
  assumes "code_of i = code_of j"
  shows "i = j"
proof -
  have "i + 1 = string_value 10 (tl (code_of i))" by (simp only: code_of_value)
  also have "\<dots> = string_value 10 (tl (code_of j))" by (simp only: assms)
  also have "\<dots> = j + 1" by (simp only: code_of_value)
  finally show ?thesis by simp
qed

lemma distinct_codes: "distinct (map code_of [0..<n])"
  by (simp add: distinct_map inj_on_def) (use code_of_inj in blast)

subsection \<open>Sorting and numbering\<close>

lemma sortedColors_zip:
  "sortedColors counts = zip (map code_of [0..<length counts]) (sort_key by_count counts)"
proof -
  have "(\<lambda>(idx, (hex, cnt)). (code_of idx, hex, cnt)) = (\<lambda>(idx, p :: string \<times> nat). (code_of idx, p))"
    by (auto simp: fun_eq_iff)
  then show ?thesis
    by (simp add: sortedColors_def by_count_def enumerate_eq_zip zip_map1)
qed

lemma fold_assign_step:
  "distinct (map fst sc) \<Longrightarrow> distinct (map (\<lambda>t. fst (snd t)) sc) \<Longrightarrow>
     fold assign_step sc ([], [], []) =
       (map (\<lambda>t. (fst (snd t), fst t)) sc, map (\<lambda>t. (fst t, fst (snd t))) sc,
        map (\<lambda>t. (fst t, snd (snd t))) sc)"
proof (induction sc rule: rev_induct)
  case Nil
  then show ?case by simp
next
  case (snoc t sc)
  obtain code hex cnt where t: "t = (code, hex, cnt)" by (cases t) auto
  from snoc.prems have d: "distinct (map fst sc)" "distinct (map (\<lambda>t. fst (snd t)) sc)"
    and n: "code \<notin> fst ` set sc" "hex \<notin> (\<lambda>t. fst (snd t)) ` set sc"
    by (auto simp: t)
  have a: "AList.update hex code (map (\<lambda>t. (fst (snd t), fst t)) sc) = map (\<lambda>t. (fst (snd t), fst t)) sc @ [(hex, code)]"
    by (rule update_absent) (use n in \<open>auto simp: image_iff\<close>)
  have b: "AList.update code hex (map (\<lambda>t. (fst t, fst (snd t))) sc) = map (\<lambda>t. (fst t, fst (snd t))) sc @ [(code, hex)]"
    by (rule update_absent) (use n in \<open>auto simp: image_iff\<close>)
  have c: "AList.update code cnt (map (\<lambda>t. (fst t, snd (snd t))) sc) = map (\<lambda>t. (fst t, snd (snd t))) sc @ [(code, cnt)]"
    by (rule update_absent) (use n in \<open>auto simp: image_iff\<close>)
  from snoc.IH [OF d] show ?case by (simp add: t a b c)
qed

subsection \<open>The result of processImage\<close>

lemma medianCut_nonempty: "pxs \<noteq> [] \<Longrightarrow> medianCut pxs maxColors \<noteq> []"
  using medianCut_loop_length_ge [of "[ColorBox_new pxs]" maxColors]
  by (auto simp: medianCut_def)

lemma ranked_mset: "mset (ranked hs) = mset (tally hs)"
  by (simp add: ranked_def)

lemma ranked_keys_distinct: "distinct (map fst (ranked hs))"
proof -
  have "mset (map fst (ranked hs)) = mset (map fst (tally hs))" by (simp add: ranked_mset)
  from mset_eq_imp_distinct_iff [OF this] tally_keys [of hs] show ?thesis by simp
qed

lemma ranked_set: "set (ranked hs) = set (tally hs)"
  by (simp add: ranked_def)

lemma ranked_keys_set: "set (map fst (ranked hs)) = set hs"
  using tally_keys [of hs] by (simp add: ranked_set)

lemma ranked_length: "length (ranked hs) = length (tally hs)"
  by (simp add: ranked_def)

lemma ranked_sum: "sum_list (map snd (ranked hs)) = length hs"
proof -
  have "mset (map snd (ranked hs)) = mset (map snd (tally hs))" by (simp add: ranked_mset)
  then have "sum_mset (mset (map snd (ranked hs))) = sum_mset (mset (map snd (tally hs)))"
    by (simp only:)
  then have "sum_list (map snd (ranked hs)) = sum_list (map snd (tally hs))"
    by (simp only: sum_mset_sum_list)
  then show ?thesis by (simp add: tally_sum)
qed

lemma processImage_ok:
  assumes le: "h * w \<le> length pxs"
  shows "processImage pxs h w maxColors =
     Inr \<lparr>grid = map (map (map_of (zip (map fst (ranked (scan pxs h w maxColors)))
                                     (map code_of [0..<length (ranked (scan pxs h w maxColors))]))))
                   (chunk w h (map (hex_of (medianCut pxs maxColors)) pxs)),
          colorMap = zip (map code_of [0..<length (ranked (scan pxs h w maxColors))])
                         (map fst (ranked (scan pxs h w maxColors))),
          colorCounts = zip (map code_of [0..<length (ranked (scan pxs h w maxColors))])
                            (map snd (ranked (scan pxs h w maxColors))),
          numColors = length (ranked (scan pxs h w maxColors))\<rparr>"
proof -
  let ?P = "medianCut pxs maxColors"
  let ?H = "scan pxs h w maxColors"
  let ?S = "ranked ?H"
  let ?cs = "map code_of [0..<length ?S]"
  have c: "?P \<noteq> [] \<or> w = 0 \<or> h = 0"
  proof (cases "pxs = []")
    case True
    with le have "h * w = 0" by simp
    then show ?thesis by auto
  next
    case False
    then show ?thesis by (simp add: medianCut_nonempty)
  qed
  from le have le0: "0 + h * w \<le> length pxs" by simp
  have g: "grid_loop pxs ?P w h (0, [], []) =
      Inr (h * w, tally ?H, chunk w h (map (hex_of ?P) pxs))"
    using grid_loop_ok [OF c le0, of "[]" "[]"] by (simp add: tally_def scan_def)
  have sc: "sortedColors (tally ?H) = zip ?cs ?S"
    by (simp add: sortedColors_zip ranked_def)
  have l: "length ?cs = length ?S" by simp
  have d1: "distinct (map fst (zip ?cs ?S))"
    using distinct_codes [of "length ?S"] by (simp only: map_fst_zip [OF l])
  have m2: "map (\<lambda>t. fst (snd t)) (zip ?cs ?S) = map fst ?S"
    by (rule nth_equalityI) simp_all
  have d2: "distinct (map (\<lambda>t. fst (snd t)) (zip ?cs ?S))"
    by (simp only: m2 ranked_keys_distinct)
  have z1: "map (\<lambda>t. (fst (snd t), fst t)) (zip ?cs ?S) = zip (map fst ?S) ?cs"
    by (rule nth_equalityI) simp_all
  have z2: "map (\<lambda>t. (fst t, fst (snd t))) (zip ?cs ?S) = zip ?cs (map fst ?S)"
    by (rule nth_equalityI) simp_all
  have z3: "map (\<lambda>t. (fst t, snd (snd t))) (zip ?cs ?S) = zip ?cs (map snd ?S)"
    by (rule nth_equalityI) simp_all
  have f: "fold assign_step (zip ?cs ?S) ([], [], []) =
      (zip (map fst ?S) ?cs, zip ?cs (map fst ?S), zip ?cs (map snd ?S))"
    using fold_assign_step [OF d1 d2] by (simp only: z1 z2 z3)
  show ?thesis
    by (simp add: processImage_def Let_def g sc f del: map_map)
qed

subsection \<open>The nearest colour\<close>

lemma less_minDist_trans: "d' < d \<Longrightarrow> less_minDist d md \<Longrightarrow> less_minDist d' md"
  by (cases md) auto

lemma less_minDist_not: "\<not> less_minDist d md \<Longrightarrow> less_minDist d' md \<Longrightarrow> d' < d"
  by (cases md) auto

lemma first_least_Nil:
  "\<forall>qr qg qb. RGB qr qg qb \<in> set rest \<longrightarrow> \<not> sq_dist r g b qr qg qb < sq_dist r g b pr pg pb \<Longrightarrow>
     first_least r g b [] pr pg pb rest"
  unfolding first_least_def by (simp add: not_less)

lemma first_least_NaN:
  "first_least r g b before pr pg pb after \<Longrightarrow> first_least r g b (NaN_color # before) pr pg pb after"
  unfolding first_least_def by simp

lemma first_least_RGB:
  "first_least r g b before pr pg pb after \<Longrightarrow> sq_dist r g b pr pg pb < sq_dist r g b cr cg cb \<Longrightarrow>
     first_least r g b (RGB cr cg cb # before) pr pg pb after"
  unfolding first_least_def by simp

lemma hitI:
  "rest = before @ RGB pr pg pb # after \<Longrightarrow> res = Some (RGB pr pg pb) \<Longrightarrow>
     less_minDist (sq_dist r g b pr pg pb) md \<Longrightarrow> first_least r g b before pr pg pb after \<Longrightarrow>
     hit r g b rest md res"
  unfolding hit_def by (intro exI conjI)

lemma hitE:
  assumes "hit r g b rest md res"
  obtains before pr pg pb after where "rest = before @ RGB pr pg pb # after"
    "res = Some (RGB pr pg pb)" "less_minDist (sq_dist r g b pr pg pb) md"
    "first_least r g b before pr pg pb after"
  using assms unfolding hit_def by (elim exE conjE)

lemma hit_Cons_NaN:
  assumes "hit r g b rest md res"
  shows "hit r g b (NaN_color # rest) md res"
proof -
  from assms obtain before pr pg pb after where h: "rest = before @ RGB pr pg pb # after"
    "res = Some (RGB pr pg pb)" "less_minDist (sq_dist r g b pr pg pb) md"
    "first_least r g b before pr pg pb after" by (rule hitE)
  from h(1) have "NaN_color # rest = (NaN_color # before) @ RGB pr pg pb # after" by simp
  then show ?thesis using h(2) h(3) first_least_NaN [OF h(4)] by (rule hitI)
qed

lemma hit_Cons_RGB:
  assumes "hit r g b rest md' res" "less_minDist (sq_dist r g b pr pg pb) md"
    and far: "\<And>d. less_minDist d md' \<Longrightarrow> d < sq_dist r g b cr cg cb \<and> less_minDist d md"
  shows "hit r g b (RGB cr cg cb # rest) md res"
proof -
  from assms(1) obtain before pr pg pb after where h: "rest = before @ RGB pr pg pb # after"
    "res = Some (RGB pr pg pb)" "less_minDist (sq_dist r g b pr pg pb) md'"
    "first_least r g b before pr pg pb after" by (rule hitE)
  from far [OF h(3)] have lt: "sq_dist r g b pr pg pb < sq_dist r g b cr cg cb"
    and lm: "less_minDist (sq_dist r g b pr pg pb) md" by simp_all
  from h(1) have "RGB cr cg cb # rest = (RGB cr cg cb # before) @ RGB pr pg pb # after" by simp
  then show ?thesis using h(2) lm first_least_RGB [OF h(4) lt] by (rule hitI)
qed

lemma nearest_loop_first_min:
  "(nearest_loop r g b rest md nr = nr
      \<and> (\<forall>qr qg qb. RGB qr qg qb \<in> set rest \<longrightarrow> \<not> less_minDist (sq_dist r g b qr qg qb) md))
   \<or> hit r g b rest md (nearest_loop r g b rest md nr)"
proof (induction rest arbitrary: md nr)
  case Nil
  then show ?case by simp
next
  case (Cons c rest)
  show ?case
  proof (cases c)
    case NaN_color
    from Cons.IH [of md nr] show ?thesis
    proof
      assume "nearest_loop r g b rest md nr = nr
        \<and> (\<forall>qr qg qb. RGB qr qg qb \<in> set rest \<longrightarrow> \<not> less_minDist (sq_dist r g b qr qg qb) md)"
      then show ?thesis by (simp add: NaN_color)
    next
      assume "hit r g b rest md (nearest_loop r g b rest md nr)"
      then have "hit r g b (NaN_color # rest) md (nearest_loop r g b rest md nr)" by (rule hit_Cons_NaN)
      then show ?thesis by (simp add: NaN_color)
    qed
  next
    case (RGB cr cg cb)
    let ?d = "sq_dist r g b cr cg cb"
    show ?thesis
    proof (cases "less_minDist ?d md")
      case True
      then have step: "nearest_loop r g b (RGB cr cg cb # rest) md nr =
          nearest_loop r g b rest (Some ?d) (Some (RGB cr cg cb))"
        by (simp add: sq_dist_def Let_def)
      from Cons.IH [of "Some ?d" "Some (RGB cr cg cb)"] have "hit r g b (c # rest) md (nearest_loop r g b (c # rest) md nr)"
      proof
        assume a: "nearest_loop r g b rest (Some ?d) (Some (RGB cr cg cb)) = Some (RGB cr cg cb)
          \<and> (\<forall>qr qg qb. RGB qr qg qb \<in> set rest \<longrightarrow> \<not> less_minDist (sq_dist r g b qr qg qb) (Some ?d))"
        then have "\<forall>qr qg qb. RGB qr qg qb \<in> set rest \<longrightarrow> \<not> sq_dist r g b qr qg qb < ?d" by simp
        then have fl: "first_least r g b [] cr cg cb rest" by (rule first_least_Nil)
        have e: "c # rest = [] @ RGB cr cg cb # rest" by (simp add: RGB)
        from a step have s: "nearest_loop r g b (c # rest) md nr = Some (RGB cr cg cb)"
          by (simp only: RGB)
        from e s True fl show ?thesis by (rule hitI)
      next
        assume h: "hit r g b rest (Some ?d) (nearest_loop r g b rest (Some ?d) (Some (RGB cr cg cb)))"
        have "hit r g b (RGB cr cg cb # rest) md (nearest_loop r g b rest (Some ?d) (Some (RGB cr cg cb)))"
        proof (rule hit_Cons_RGB [OF h True])
          fix d
          assume "less_minDist d (Some ?d)"
          then have "d < ?d" by simp
          with less_minDist_trans [OF this True] show "d < ?d \<and> less_minDist d md" by simp
        qed
        then show ?thesis by (simp only: RGB step)
      qed
      then show ?thesis ..
    next
      case False
      then have step: "nearest_loop r g b (RGB cr cg cb # rest) md nr = nearest_loop r g b rest md nr"
        by (simp add: sq_dist_def Let_def)
      from Cons.IH [of md nr] show ?thesis
      proof
        assume "nearest_loop r g b rest md nr = nr
          \<and> (\<forall>qr qg qb. RGB qr qg qb \<in> set rest \<longrightarrow> \<not> less_minDist (sq_dist r g b qr qg qb) md)"
        with False show ?thesis by (simp only: RGB step) simp
      next
        assume h: "hit r g b rest md (nearest_loop r g b rest md nr)"
        from h obtain before pr pg pb after where "less_minDist (sq_dist r g b pr pg pb) md"
          by (rule hitE)
        then have "hit r g b (RGB cr cg cb # rest) md (nearest_loop r g b rest md nr)"
        proof (rule hit_Cons_RGB [OF h])
          fix d
          assume l: "less_minDist d md"
          from less_minDist_not [OF False l] l show "d < ?d \<and> less_minDist d md" by simp
        qed
        then have "hit r g b (c # rest) md (nearest_loop r g b (c # rest) md nr)"
          by (simp only: RGB step)
        then show ?thesis ..
      qed
    qed
  qed
qed

lemma findNearestColor_hit:
  assumes "RGB cr cg cb \<in> set palette"
  shows "hit r g b palette None (findNearestColor r g b palette)"
proof -
  let ?nr = "case palette of [] \<Rightarrow> None | c # _ \<Rightarrow> Some c"
  from nearest_loop_first_min [of r g b palette None ?nr]
  show ?thesis
  proof
    assume "nearest_loop r g b palette None ?nr = ?nr
      \<and> (\<forall>qr qg qb. RGB qr qg qb \<in> set palette \<longrightarrow> \<not> less_minDist (sq_dist r g b qr qg qb) None)"
    with assms show ?thesis by simp
  next
    assume "hit r g b palette None (nearest_loop r g b palette None ?nr)"
    then show ?thesis by (simp only: findNearestColor_def)
  qed
qed

lemma findNearestColor_first_least:
  assumes "RGB cr cg cb \<in> set palette"
  shows "\<exists>before pr pg pb after. palette = before @ RGB pr pg pb # after
        \<and> findNearestColor r g b palette = Some (RGB pr pg pb)
        \<and> first_least r g b before pr pg pb after"
proof -
  from findNearestColor_hit [OF assms, of r g b]
  obtain before pr pg pb after where "palette = before @ RGB pr pg pb # after"
    "findNearestColor r g b palette = Some (RGB pr pg pb)"
    "first_least r g b before pr pg pb after" by (rule hitE)
  then show ?thesis by (intro exI conjI)
qed

lemma sq_dist_zero: "sq_dist r g b pr pg pb \<le> 0 \<Longrightarrow> pr = r \<and> pg = g \<and> pb = b"
proof -
  assume le: "sq_dist r g b pr pg pb \<le> 0"
  have "0 \<le> (r - pr)\<^sup>2" "0 \<le> (g - pg)\<^sup>2" "0 \<le> (b - pb)\<^sup>2" by simp_all
  with le have "(r - pr)\<^sup>2 = 0" "(g - pg)\<^sup>2 = 0" "(b - pb)\<^sup>2 = 0"
    unfolding sq_dist_def by linarith+
  then show ?thesis by simp
qed

lemma findNearestColor_self:
  assumes "RGB cr cg cb \<in> set palette"
  shows "findNearestColor cr cg cb palette = Some (RGB cr cg cb)"
proof -
  from findNearestColor_hit [OF assms, of cr cg cb]
  obtain before pr pg pb after where p: "palette = before @ RGB pr pg pb # after"
    and f: "findNearestColor cr cg cb palette = Some (RGB pr pg pb)"
    and fl: "first_least cr cg cb before pr pg pb after" by (rule hitE)
  have z: "sq_dist cr cg cb cr cg cb = 0" by (simp add: sq_dist_def)
  from assms p consider "RGB cr cg cb \<in> set before" | "RGB cr cg cb = RGB pr pg pb"
    | "RGB cr cg cb \<in> set after" by auto
  then have "sq_dist cr cg cb pr pg pb \<le> 0"
  proof cases
    case 1
    with fl have "sq_dist cr cg cb pr pg pb < sq_dist cr cg cb cr cg cb"
      unfolding first_least_def by blast
    with z show ?thesis by simp
  next
    case 2
    with z show ?thesis by simp
  next
    case 3
    with fl have "sq_dist cr cg cb pr pg pb \<le> sq_dist cr cg cb cr cg cb"
      unfolding first_least_def by blast
    with z show ?thesis by simp
  qed
  from sq_dist_zero [OF this] f show ?thesis by simp
qed

subsection \<open>The grid\<close>

lemma chunk_length: "length (chunk w k xs) = k"
  by (induction k arbitrary: xs) auto

lemma chunk_rows: "k * w \<le> length xs \<Longrightarrow> \<forall>row \<in> set (chunk w k xs). length row = w"
proof (induction k arbitrary: xs)
  case 0
  then show ?case by simp
next
  case (Suc k)
  from Suc.prems have s: "w + k * w \<le> length xs" by simp
  then have b: "w \<le> length xs" by (rule add_leD1)
  from s have a: "k * w \<le> length (drop w xs)" by simp
  show ?case
  proof
    fix row
    assume "row \<in> set (chunk w (Suc k) xs)"
    then consider "row = take w xs" | "row \<in> set (chunk w k (drop w xs))" by auto
    then show "length row = w"
    proof cases
      case 1
      with b show ?thesis by simp
    next
      case 2
      with Suc.IH [OF a] show ?thesis by blast
    qed
  qed
qed

lemma chunk_concat: "concat (chunk w k xs) = take (k * w) xs"
proof (induction k arbitrary: xs)
  case 0
  then show ?case by simp
next
  case (Suc k)
  have "take (w + k * w) xs = take w xs @ take (k * w) (drop w xs)" by (simp add: take_add)
  with Suc show ?case by simp
qed

lemma chunk_cells: "row \<in> set (chunk w k xs) \<Longrightarrow> cell \<in> set row \<Longrightarrow> cell \<in> set (take (k * w) xs)"
proof -
  assume "row \<in> set (chunk w k xs)" "cell \<in> set row"
  then have "cell \<in> set (concat (chunk w k xs))" by auto
  then show ?thesis by (simp only: chunk_concat)
qed

lemma chunk_map: "chunk w k (map f xs) = map (map f) (chunk w k xs)"
  by (induction k arbitrary: xs) (simp_all add: take_map drop_map)

lemma scan_length: "h * w \<le> length pxs \<Longrightarrow> length (scan pxs h w maxColors) = h * w"
  by (simp add: scan_def)

lemma zip_codes_keys:
  assumes "length ks = length cs" "k \<in> set ks"
  shows "\<exists>c. map_of (zip ks cs) k = Some c \<and> c \<in> set cs"
proof -
  from map_of_zip_is_Some [OF assms(1), of k] assms(2)
  obtain c where c: "map_of (zip ks cs) k = Some c" by auto
  from map_of_SomeD [OF c] have "c \<in> set cs" by (rule set_zip_rightD)
  with c show ?thesis by blast
qed

subsection \<open>Bounds on the number of colours\<close>

lemma scan_subset:
  assumes "pxs \<noteq> []"
  shows "set (scan pxs h w maxColors) \<subseteq> rgbToHex ` set (medianCut pxs maxColors)"
proof
  fix hex
  assume "hex \<in> set (scan pxs h w maxColors)"
  then obtain p where "hex = hex_of (medianCut pxs maxColors) p" by (auto simp: scan_def)
  with classify_mem [OF medianCut_nonempty [OF assms], of maxColors p]
  show "hex \<in> rgbToHex ` set (medianCut pxs maxColors)" by (auto simp: hex_of_def)
qed

lemma ranked_length_card: "length (ranked hs) = card (set hs)"
proof -
  from tally_keys [of hs] have "distinct (map fst (tally hs))" and "set (map fst (tally hs)) = set hs"
    by simp_all
  from distinct_card [OF this(1)] this(2) show ?thesis by (simp add: ranked_length)
qed

lemma medianCut_length:
  assumes "1 \<le> maxColors"
  shows "int (length (medianCut pxs maxColors)) \<le> maxColors"
proof (cases "pxs = []")
  case True
  with assms show ?thesis by (simp add: medianCut_def)
next
  case False
  from assms have "int (length [ColorBox_new pxs]) \<le> maxColors" by simp
  from medianCut_loop_length_le [OF this] False show ?thesis by (simp add: medianCut_def)
qed

subsection \<open>A scan with a single key\<close>

lemma map_const_replicate: "\<forall>x \<in> set xs. f x = k \<Longrightarrow> map f xs = replicate (length xs) k"
  by (induction xs) auto

lemma tally_replicate: "tally (replicate (Suc n) k) = [(k, Suc n)]"
proof (induction n)
  case 0
  show ?case by (simp add: tally_def count_hex_def)
next
  case (Suc n)
  have "replicate (Suc (Suc n)) k = replicate (Suc n) k @ [k]"
    using replicate_append_same [of "Suc n" k] by simp
  then have "tally (replicate (Suc (Suc n)) k) = count_hex k (tally (replicate (Suc n) k))"
    by (simp only: tally_snoc)
  with Suc show ?case by (simp add: count_hex_def)
qed

lemma chunk_replicate: "chunk w h (replicate (h * w) k) = replicate h (replicate w k)"
proof (induction h)
  case 0
  show ?case by simp
next
  case (Suc h)
  have "take w (replicate (w + h * w) k) = replicate w k" by simp
  moreover have "drop w (replicate (w + h * w) k) = replicate (h * w) k" by simp
  ultimately show ?case using Suc by simp
qed

lemma code_of_0: "code_of 0 = ''C01''"
  by (simp add: code_of_def nat_toString.simps padStart_def digit_char_def digits_def)

lemma processImage_uniform:
  assumes ne: "pxs \<noteq> []" and len: "length pxs = h * w"
    and k: "\<forall>p \<in> set pxs. hex_of (medianCut pxs maxColors) p = k"
  shows "processImage pxs h w maxColors =
     Inr \<lparr>grid = replicate h (replicate w (Some ''C01'')),
          colorMap = [(''C01'', k)],
          colorCounts = [(''C01'', h * w)],
          numColors = 1\<rparr>"
proof -
  let ?P = "medianCut pxs maxColors"
  from ne len obtain n where n: "h * w = Suc n" by (cases "h * w") auto
  from len have le: "h * w \<le> length pxs" by simp
  have hx: "map (hex_of ?P) pxs = replicate (h * w) k"
    using map_const_replicate [OF k] len by simp
  have sc: "scan pxs h w maxColors = replicate (h * w) k"
    using hx len by (simp add: scan_def)
  have rk: "ranked (scan pxs h w maxColors) = [(k, h * w)]"
    unfolding sc n ranked_def tally_replicate by simp
  have g: "map (map f) (chunk w h (replicate (h * w) k)) = replicate h (replicate w (f k))"
    for f :: "string \<Rightarrow> string option"
    by (simp add: chunk_replicate)
  show ?thesis
    by (simp add: processImage_ok [OF le] rk hx code_of_0 g)
qed

subsection \<open>The average\<close>

lemma round_div_floor:
  assumes "0 < n"
  shows "round_div s n = \<lfloor>real_of_int s / real n + 1 / 2\<rfloor>"
proof -
  from assms have "real_of_int s / real n + 1 / 2 = real_of_int (2 * s + int n) / real_of_int (2 * int n)"
    by (simp add: field_simps)
  then show ?thesis by (simp only: round_div_def floor_divide_of_int_eq)
qed

lemma average_mean:
  assumes "ps \<noteq> []"
  shows "average (ColorBox_new ps) =
     RGB (mean_round (map fst ps)) (mean_round (map (\<lambda>p. fst (snd p)) ps))
         (mean_round (map (\<lambda>p. snd (snd p)) ps))"
proof -
  from assms have "0 < length ps" by simp
  from round_div_floor [OF this] assms show ?thesis
    by (simp add: average_nonempty mean_round_def)
qed

lemma medianCut_one:
  assumes "pxs \<noteq> []" "maxColors \<le> 1"
  shows "medianCut pxs maxColors = [average (ColorBox_new pxs)]"
  using assms by (simp add: medianCut_def medianCut_loop.simps)

lemma classify_single: "classify [c] p = c"
  using classify_mem [of "[c]" p] by simp

subsection \<open>The order of the codes\<close>

lemma tally_distinct: "distinct (tally hs)"
  using tally_keys [of hs] by (simp add: distinct_map)

lemma ranked_counts: "(k, c) \<in> set (ranked hs) \<Longrightarrow> c = count_list hs k \<and> k \<in> set hs"
  using tally_counts [of k c hs] by (simp add: ranked_set)

lemma ranked_snd: "map snd (ranked hs) = map (count_list hs) (map fst (ranked hs))"
proof -
  have "\<forall>p \<in> set (ranked hs). snd p = count_list hs (fst p)"
    using ranked_counts [of _ _ hs] by auto
  then show ?thesis by (simp add: map_eq_conv)
qed

lemma ranked_order:
  "sorted_wrt (\<lambda>x y. count_list hs y < count_list hs x
      \<or> (count_list hs x = count_list hs y \<and> first_index hs x < first_index hs y))
     (map fst (ranked hs))"
proof -
  let ?T = "tally hs"
  let ?R = "\<lambda>a b. by_count a < by_count b \<or> (by_count a = by_count b \<and> first_index ?T a < first_index ?T b)"
  let ?R' = "\<lambda>a b. count_list hs (fst b) < count_list hs (fst a)
      \<or> (count_list hs (fst a) = count_list hs (fst b) \<and> first_index hs (fst a) < first_index hs (fst b))"
  have s: "sorted_wrt ?R (ranked hs)"
    unfolding ranked_def by (rule sort_key_order [OF tally_distinct])
  from tally_keys [of hs]
  have o: "sorted_wrt (\<lambda>a b. first_index hs (fst a) < first_index hs (fst b)) ?T"
    by (simp add: sorted_wrt_map)
  have "?R' a b" if a: "a \<in> set (ranked hs)" and b: "b \<in> set (ranked hs)" and r: "?R a b" for a b
  proof -
    from a b have ta: "a \<in> set ?T" and tb: "b \<in> set ?T" by (simp_all add: ranked_set)
    from ta tally_counts [of "fst a" "snd a" hs] have ca: "snd a = count_list hs (fst a)" by simp
    from tb tally_counts [of "fst b" "snd b" hs] have cb: "snd b = count_list hs (fst b)" by simp
    have ba: "by_count a = - int (count_list hs (fst a))"
      using ca by (simp add: by_count_def case_prod_unfold)
    have bb: "by_count b = - int (count_list hs (fst b))"
      using cb by (simp add: by_count_def case_prod_unfold)
    from r show ?thesis
    proof
      assume "by_count a < by_count b"
      then show ?thesis by (simp add: ba bb)
    next
      assume e: "by_count a = by_count b \<and> first_index ?T a < first_index ?T b"
      then have "first_index hs (fst a) < first_index hs (fst b)"
        using sorted_wrt_first_index [OF o ta tb] by simp
      with e show ?thesis by (simp add: ba bb)
    qed
  qed
  with s have "sorted_wrt ?R' (ranked hs)" by (rule sorted_wrt_mono_rel [rotated])
  then show ?thesis by (simp add: sorted_wrt_map)
qed

lemma ranked_ranks: "sorted_wrt (ranks_before hs) (map fst (ranked hs))"
  using ranked_order [of hs] by (simp add: ranks_before_def [abs_def])

lemma concat_chunk_map: "concat (map (map f) (chunk w h xs)) = map f (take (h * w) xs)"
  by (simp only: map_concat [symmetric] chunk_concat)

subsection \<open>Keys and colours\<close>

lemma upper_digit_table: "map upper_digit [0..<16] = ''0123456789ABCDEF''"
  by code_simp

lemma upper_digit_inj:
  assumes "a < 16" "b < 16" "upper_digit a = upper_digit b"
  shows "a = b"
proof -
  have "distinct (map upper_digit [0..<16])" unfolding upper_digit_table by simp
  then have i: "inj_on upper_digit (set [0..<16])" by (simp only: distinct_map)
  from assms(1,2) have m: "a \<in> set [0..<16]" "b \<in> set [0..<16]" by simp_all
  from i assms(3) m show ?thesis by (rule inj_onD)
qed

lemma upper_zero: "upper_char CHR ''0'' = upper_digit 0"
  by code_simp

lemma hex2_byte:
  assumes "0 \<le> x" "x \<le> 255"
  shows "hex2 x = [upper_digit (nat x div 16), upper_digit (nat x mod 16)]"
proof (cases "nat x < 16")
  case True
  then have "nat_toString 16 (nat x) = [digit_char (nat x)]" by (simp add: nat_toString.simps)
  with assms True show ?thesis
    by (simp add: hex2_def int_toString_def padStart_def toUpperCase_def upper_zero upper_digit_def)
next
  case False
  from assms have "nat x div 16 < 16" by linarith
  then have "nat_toString 16 (nat x div 16) = [digit_char (nat x div 16)]"
    by (simp add: nat_toString.simps)
  with False have "nat_toString 16 (nat x) = [digit_char (nat x div 16), digit_char (nat x mod 16)]"
    by (simp add: nat_toString.simps [of 16 "nat x"])
  with assms show ?thesis
    by (simp add: hex2_def int_toString_def padStart_def toUpperCase_def upper_digit_def)
qed

lemma hex2_inj:
  assumes "0 \<le> x" "x \<le> 255" "0 \<le> y" "y \<le> 255" "hex2 x = hex2 y"
  shows "x = y"
proof -
  from assms have "upper_digit (nat x div 16) = upper_digit (nat y div 16)"
    and "upper_digit (nat x mod 16) = upper_digit (nat y mod 16)"
    by (simp_all add: hex2_byte)
  moreover from assms have "nat x div 16 < 16" "nat y div 16 < 16" by linarith+
  moreover have "nat x mod 16 < 16" "nat y mod 16 < 16" by simp_all
  ultimately have "nat x div 16 = nat y div 16" "nat x mod 16 = nat y mod 16"
    by (auto intro: upper_digit_inj)
  then have "nat x = nat y" by (metis div_mult_mod_eq)
  with assms show ?thesis by simp
qed

lemma rgbToHex_inj:
  assumes "valid_color c" "valid_color c'" "rgbToHex c = rgbToHex c'"
  shows "c = c'"
proof -
  from assms(1) obtain r g b where c: "c = RGB r g b" by (cases c) auto
  from assms(2) obtain r' g' b' where c': "c' = RGB r' g' b'" by (cases c') auto
  from assms(1,2) have v: "0 \<le> r" "r \<le> 255" "0 \<le> g" "g \<le> 255" "0 \<le> b" "b \<le> 255"
    "0 \<le> r'" "r' \<le> 255" "0 \<le> g'" "g' \<le> 255" "0 \<le> b'" "b' \<le> 255"
    by (simp_all add: c c')
  from assms(3) have "hex2 r @ hex2 g @ hex2 b = hex2 r' @ hex2 g' @ hex2 b'"
    by (simp add: c c')
  then have "hex2 r = hex2 r' \<and> hex2 g = hex2 g' \<and> hex2 b = hex2 b'"
    using v by (simp add: hex2_byte)
  with v have "r = r'" "g = g'" "b = b'" by (auto intro: hex2_inj)
  then show ?thesis by (simp add: c c')
qed

lemma sum_list_bounds:
  "\<forall>x \<in> set xs. 0 \<le> f x \<and> f x \<le> (255 :: int) \<Longrightarrow>
     0 \<le> sum_list (map f xs) \<and> sum_list (map f xs) \<le> 255 * int (length xs)"
  by (induction xs) auto

lemma round_div_byte:
  assumes "0 < n" "0 \<le> s" "s \<le> 255 * int n"
  shows "0 \<le> round_div s n \<and> round_div s n \<le> 255"
proof -
  from assms have lo: "0 \<le> (2 * s + int n) div (2 * int n)"
    by (simp add: pos_imp_zdiv_nonneg_iff)
  from assms(1) have z: "2 * int n \<noteq> 0" and p: "0 < 2 * int n" by simp_all
  from assms have "2 * s + int n \<le> int n + 2 * int n * 255" by simp
  then have "(2 * s + int n) div (2 * int n) \<le> (int n + 2 * int n * 255) div (2 * int n)"
    using p by (rule zdiv_mono1)
  also have "\<dots> = 255 + int n div (2 * int n)" by (rule div_mult_self2 [OF z])
  also from assms(1) have "int n div (2 * int n) = 0" by simp
  finally have "(2 * s + int n) div (2 * int n) \<le> 255" by simp
  with lo show ?thesis by (simp add: round_div_def)
qed

lemma average_valid:
  assumes "pixels box \<noteq> []" "\<forall>p \<in> set (pixels box). valid_pixel p"
  shows "valid_color (average box)"
proof -
  from assms(1) have n: "0 < length (pixels box)" by simp
  from assms(2) have 1: "\<forall>p \<in> set (pixels box). 0 \<le> fst p \<and> fst p \<le> 255"
    and 2: "\<forall>p \<in> set (pixels box). 0 \<le> fst (snd p) \<and> fst (snd p) \<le> 255"
    and 3: "\<forall>p \<in> set (pixels box). 0 \<le> snd (snd p) \<and> snd (snd p) \<le> 255"
    by auto
  from sum_list_bounds [OF 1] sum_list_bounds [OF 2] sum_list_bounds [OF 3] n
  show ?thesis
    by (simp add: average_nonempty [OF assms(1)] round_div_byte)
qed

lemma valid_split:
  assumes "pixels box \<noteq> [] \<and> (\<forall>p \<in> set (pixels box). valid_pixel p)" "1 < length (pixels box)"
    "ColorBox_split box = (b1, b2)"
  shows "(pixels b1 \<noteq> [] \<and> (\<forall>p \<in> set (pixels b1). valid_pixel p))
       \<and> (pixels b2 \<noteq> [] \<and> (\<forall>p \<in> set (pixels b2). valid_pixel p))"
proof -
  from split_lengths [OF assms(3)] assms(2)
  have "0 < length (pixels b1)" "0 < length (pixels b2)" by simp_all
  moreover from split_set [OF assms(3)] assms(1)
  have "\<forall>p \<in> set (pixels b1). valid_pixel p" "\<forall>p \<in> set (pixels b2). valid_pixel p" by blast+
  ultimately show ?thesis by simp
qed

lemma medianCut_valid:
  assumes v: "\<forall>p \<in> set pxs. valid_pixel p"
  shows "\<forall>c \<in> set (medianCut pxs maxColors). valid_color c"
proof (cases "pxs = []")
  case True
  then show ?thesis by (simp add: medianCut_def)
next
  case False
  let ?I = "\<lambda>box. pixels box \<noteq> [] \<and> (\<forall>p \<in> set (pixels box). valid_pixel p)"
  have "\<forall>box \<in> set (medianCut_loop maxColors [ColorBox_new pxs]). ?I box"
  proof (rule medianCut_loop_preserves)
    from False v show "\<forall>box \<in> set [ColorBox_new pxs]. ?I box" by simp
  next
    fix box b1 b2
    assume "?I box" "1 < length (pixels box)" "ColorBox_split box = (b1, b2)"
    then show "?I b1 \<and> ?I b2" by (rule valid_split)
  qed
  then have "\<forall>box \<in> set (medianCut_loop maxColors [ColorBox_new pxs]). valid_color (average box)"
    using average_valid by blast
  with False show ?thesis by (auto simp: medianCut_def)
qed

lemma medianCut_keys_inj:
  assumes "\<forall>p \<in> set pxs. valid_pixel p"
  shows "inj_on rgbToHex (set (medianCut pxs maxColors))"
  using medianCut_valid [OF assms, of maxColors] by (auto simp: inj_on_def intro: rgbToHex_inj)

subsection \<open>One colour\<close>

lemma hex_of_single: "hex_of [c] p = rgbToHex c"
  by (simp add: hex_of_def classify_single)

lemma round_div_same:
  assumes "0 < n"
  shows "round_div (int n * v) n = v"
proof -
  from assms have z: "2 * int n \<noteq> 0" by simp
  have "(2 * (int n * v) + int n) div (2 * int n) = (int n + 2 * int n * v) div (2 * int n)"
    by (simp add: algebra_simps)
  also have "\<dots> = v + int n div (2 * int n)" by (rule div_mult_self2 [OF z])
  also from assms have "int n div (2 * int n) = 0" by simp
  finally show ?thesis by (simp add: round_div_def)
qed

lemma sum_uniform: "\<forall>p \<in> set ps. f p = (v :: int) \<Longrightarrow> sum_list (map f ps) = int (length ps) * v"
  by (induction ps) (auto simp: algebra_simps)

lemma average_uniform:
  assumes "pixels box \<noteq> []" "set (pixels box) \<subseteq> {(r, g, b)}"
  shows "average box = RGB r g b"
proof -
  from assms(1) have n: "0 < length (pixels box)" by simp
  from assms(2) have 1: "\<forall>p \<in> set (pixels box). fst p = r"
    and 2: "\<forall>p \<in> set (pixels box). fst (snd p) = g"
    and 3: "\<forall>p \<in> set (pixels box). snd (snd p) = b" by auto
  show ?thesis
    by (simp only: average_nonempty [OF assms(1)] sum_uniform [OF 1] sum_uniform [OF 2]
        sum_uniform [OF 3] round_div_same [OF n])
qed

lemma uniform_split:
  assumes "pixels box \<noteq> [] \<and> set (pixels box) \<subseteq> {c}" "1 < length (pixels box)"
    "ColorBox_split box = (b1, b2)"
  shows "(pixels b1 \<noteq> [] \<and> set (pixels b1) \<subseteq> {c}) \<and> (pixels b2 \<noteq> [] \<and> set (pixels b2) \<subseteq> {c})"
proof -
  from split_lengths [OF assms(3)] assms(2)
  have "0 < length (pixels b1)" "0 < length (pixels b2)" by simp_all
  moreover from split_set [OF assms(3)] assms(1)
  have "set (pixels b1) \<subseteq> {c}" "set (pixels b2) \<subseteq> {c}" by auto
  ultimately show ?thesis by simp
qed

lemma medianCut_uniform:
  assumes ne: "pxs \<noteq> []" and u: "set pxs \<subseteq> {(r, g, b)}"
  shows "set (medianCut pxs maxColors) = {RGB r g b}"
proof -
  let ?I = "\<lambda>box. pixels box \<noteq> [] \<and> set (pixels box) \<subseteq> {(r, g, b)}"
  have "\<forall>box \<in> set (medianCut_loop maxColors [ColorBox_new pxs]). ?I box"
  proof (rule medianCut_loop_preserves)
    from ne u show "\<forall>box \<in> set [ColorBox_new pxs]. ?I box" by simp
  next
    fix box b1 b2
    assume "?I box" "1 < length (pixels box)" "ColorBox_split box = (b1, b2)"
    then show "?I b1 \<and> ?I b2" by (rule uniform_split)
  qed
  then have "\<forall>box \<in> set (medianCut_loop maxColors [ColorBox_new pxs]). average box = RGB r g b"
    using average_uniform by blast
  then have "set (medianCut pxs maxColors) \<subseteq> {RGB r g b}"
    using ne by (auto simp: medianCut_def)
  with medianCut_nonempty [OF ne, of maxColors] show ?thesis
    by (cases "medianCut pxs maxColors") auto
qed

lemma mean_round_eq: "xs \<noteq> [] \<Longrightarrow> mean_round xs = round_div (sum_list xs) (length xs)"
  by (simp add: mean_round_def round_div_floor)

lemma medianCut_below_one:
  assumes "maxColors < 1"
  shows "medianCut pxs maxColors = medianCut pxs 1"
proof (cases "pxs = []")
  case True
  then show ?thesis by (simp add: medianCut_def)
next
  case False
  from assms have "maxColors \<le> 1" by simp
  from medianCut_one [OF False this] medianCut_one [OF False, of 1] show ?thesis by simp
qed

lemma processImage_returns:
  "length pxs = h * w \<Longrightarrow> \<exists>res. processImage pxs h w maxColors = Inr res"
  using processImage_ok [of h w pxs maxColors] by simp

section \<open>The worked example, evaluated\<close>

lemma scenario_palette: "medianCut scenario 2 = [RGB 0 0 0, RGB 255 128 128]"
  by code_simp

lemma scenario_axis: "longestAxis (ColorBox_new scenario) = 0"
  by code_simp

lemma scenario_classes:
  "map (\<lambda>(r, g, b). findNearestColor r g b [RGB 0 0 0, RGB 255 128 128]) scenario =
     [Some (RGB 0 0 0), Some (RGB 255 128 128), Some (RGB 0 0 0), Some (RGB 255 128 128)]"
  by code_simp

lemma scenario_result:
  "processImage scenario 2 2 2 =
     Inr \<lparr>grid = [[Some ''C01'', Some ''C02''], [Some ''C01'', Some ''C02'']],
          colorMap = [(''C01'', ''#000000''), (''C02'', ''#FF8080'')],
          colorCounts = [(''C01'', 2), (''C02'', 2)],
          numColors = 2\<rparr>"
  by code_simp

lemma scenario_body:
  "loop_body [ColorBox_new scenario] =
     Some [ColorBox_new [(0, 0, 0), (0, 0, 0)], ColorBox_new [(255, 255, 255), (255, 0, 0)]]"
  by code_simp

lemma scenario_split:
  "ColorBox_split (ColorBox_new scenario) =
     (ColorBox_new [(0, 0, 0), (0, 0, 0)], ColorBox_new [(255, 255, 255), (255, 0, 0)])"
  by code_simp

lemma scenario_loop:
  "medianCut_loop 2 [ColorBox_new scenario] =
     [ColorBox_new [(0, 0, 0), (0, 0, 0)], ColorBox_new [(255, 255, 255), (255, 0, 0)]]"
  by code_simp

lemma two_grey_palette: "medianCut two_grey 2 = [RGB 5 5 5, RGB 5 5 5]"
  by code_simp

lemma two_grey_result:
  "processImage two_grey 1 2 2 =
     Inr \<lparr>grid = [[Some ''C01'', Some ''C01'']],
          colorMap = [(''C01'', ''#050505'')],
          colorCounts = [(''C01'', 2)],
          numColors = 1\<rparr>"
  by code_simp

lemma scenario_one:
  "processImage scenario 2 2 1 =
     Inr \<lparr>grid = [[Some ''C01'', Some ''C01''], [Some ''C01'', Some ''C01'']],
          colorMap = [(''C01'', ''#804040'')],
          colorCounts = [(''C01'', 4)],
          numColors = 1\<rparr>"
  by code_simp

lemma hex_804040: "rgbToHex (RGB 128 64 64) = ''#804040''"
  by code_simp

lemma hex_050505: "rgbToHex (RGB 5 5 5) = ''#050505''"
  by code_simp

lemma one_pixel_zero:
  "processImage [(10, 20, 30)] 1 1 0 =
     Inr \<lparr>grid = [[Some ''C01'']],
          colorMap = [(''C01'', ''#0A141E'')],
          colorCounts = [(''C01'', 1)],
          numColors = 1\<rparr>"
  by code_simp

lemma equidistant_example:
  "findNearestColor 1 0 0 [RGB 0 0 0, RGB 2 0 0] = Some (RGB 0 0 0)
   \<and> sq_dist 1 0 0 0 0 0 = sq_dist 1 0 0 2 0 0"
  by code_simp

lemma white_black_black_scan:
  "scan white_black_black 1 3 2 = [''#808080'', ''#000000'', ''#000000'']"
  by code_simp

lemma white_black_black_result:
  "processImage white_black_black 1 3 2 =
     Inr \<lparr>grid = [[Some ''C02'', Some ''C01'', Some ''C01'']],
          colorMap = [(''C01'', ''#000000''), (''C02'', ''#808080'')],
          colorCounts = [(''C01'', 2), (''C02'', 1)],
          numColors = 2\<rparr>"
  by code_simp

section \<open>The properties\<close>

text \<open>
  C1, as stated: on the 2 by 2 buffer \<open>[(0,0,0), (255,255,255), (0,0,0), (255,0,0)]\<close> with
  \<open>maxColors = 2\<close> the palette is \<open>[(0,0,0), (255,128,0)]\<close>. The code does not produce
  that palette: the second box holds \<open>(255,255,255)\<close> and \<open>(255,0,0)\<close>, and its blue mean is
  \<open>127.5\<close>, rounded to \<open>128\<close> like the green one.
\<close>

theorem C1_palette_counterexample:
  "medianCut [(0, 0, 0), (255, 255, 255), (0, 0, 0), (255, 0, 0)] 2 \<noteq> [RGB 0 0 0, RGB 255 128 0]"
  using scenario_palette by (simp add: scenario_def)

text \<open>
  C1, amended: on that buffer with \<open>maxColors = 2\<close> the first split is on the R axis, the
  palette is \<open>[(0,0,0), (255,128,128)]\<close>, pixels 0 and 2 are classified to \<open>(0,0,0)\<close> and
  pixels 1 and 3 to \<open>(255,128,128)\<close>, both colours count 2 and black, seen first, receives
  the first code; the grid is \<open>[[C01, C02], [C01, C02]]\<close> and \<open>numColors\<close> is 2.
\<close>

theorem C1_scenario:
  "longestAxis (ColorBox_new scenario) = 0
   \<and> medianCut scenario 2 = [RGB 0 0 0, RGB 255 128 128]
   \<and> map (\<lambda>(r, g, b). findNearestColor r g b (medianCut scenario 2)) scenario =
       [Some (RGB 0 0 0), Some (RGB 255 128 128), Some (RGB 0 0 0), Some (RGB 255 128 128)]
   \<and> processImage scenario 2 2 2 =
       Inr \<lparr>grid = [[Some ''C01'', Some ''C02''], [Some ''C01'', Some ''C02'']],
            colorMap = [(''C01'', ''#000000''), (''C02'', ''#FF8080'')],
            colorCounts = [(''C01'', 2), (''C02'', 2)],
            numColors = 2\<rparr>"
  using scenario_axis scenario_palette scenario_classes scenario_result by simp

text \<open>
  C2, as stated: every call with \<open>maxColors < 1\<close> is rejected as an invalid argument. The
  call with one pixel and \<open>maxColors = 0\<close> returns a complete result instead.
\<close>

theorem C2_not_rejected_counterexample:
  "processImage [(10, 20, 30)] 1 1 0 =
     Inr \<lparr>grid = [[Some ''C01'']],
          colorMap = [(''C01'', ''#0A141E'')],
          colorCounts = [(''C01'', 1)],
          numColors = 1\<rparr>"
  by (rule one_pixel_zero)

text \<open>
  C2, amended: \<open>maxColors < 1\<close> is not rejected. Nothing validates it; the loop condition
  \<open>boxes.length < maxColors\<close> is false at once, so the palette and the whole result are those
  of \<open>maxColors = 1\<close>, and a buffer of \<open>rows * cols\<close> pixels still yields a result.
\<close>

theorem C2_maxColors_not_validated:
  assumes "maxColors < 1"
  shows "medianCut pxs maxColors = medianCut pxs 1
     \<and> processImage pxs h w maxColors = processImage pxs h w 1
     \<and> (length pxs = h * w \<longrightarrow> (\<exists>res. processImage pxs h w maxColors = Inr res))"
proof (intro conjI impI)
  show p: "medianCut pxs maxColors = medianCut pxs 1" by (rule medianCut_below_one [OF assms])
  show "processImage pxs h w maxColors = processImage pxs h w 1"
    by (simp only: processImage_def p)
  show "\<exists>res. processImage pxs h w maxColors = Inr res" if "length pxs = h * w"
    using that by (rule processImage_returns)
qed

theorem C2_witness:
  "(0 :: int) < 1 \<and> length [(10, 20, 30) :: pixel] = 1 * 1
   \<and> medianCut [(10, 20, 30)] 0 = medianCut [(10, 20, 30)] 1
   \<and> processImage [(10, 20, 30)] 1 1 0 = processImage [(10, 20, 30)] 1 1 1
   \<and> (\<exists>res. processImage [(10, 20, 30)] 1 1 0 = Inr res)"
proof -
  have m: "(0 :: int) < 1" by simp
  have l: "length [(10, 20, 30) :: pixel] = 1 * 1" by simp
  from C2_maxColors_not_validated [OF m, of "[(10, 20, 30)]" 1 1] m l show ?thesis by blast
qed

text \<open>
  C3: for a buffer of exactly \<open>rows * cols\<close> pixels (and whatever \<open>maxColors\<close>),
  \<open>processImage\<close> returns a result; the keys of \<open>colorCounts\<close> are distinct and its values
  sum to \<open>rows * cols\<close>; the grid has \<open>rows\<close> rows of \<open>cols\<close> cells, and every cell holds a
  code that is a key of both \<open>colorMap\<close> and \<open>colorCounts\<close>.
\<close>

theorem C3_counts_and_codes:
  assumes len: "length pxs = h * w"
  shows "\<exists>res. processImage pxs h w maxColors = Inr res
     \<and> distinct (map fst (colorCounts res))
     \<and> sum_list (map snd (colorCounts res)) = h * w
     \<and> length (grid res) = h
     \<and> (\<forall>row \<in> set (grid res). length row = w
          \<and> (\<forall>cell \<in> set row. \<exists>code. cell = Some code
                \<and> code \<in> fst ` set (colorMap res) \<and> code \<in> fst ` set (colorCounts res)))"
proof -
  let ?P = "medianCut pxs maxColors"
  let ?H = "scan pxs h w maxColors"
  let ?S = "ranked ?H"
  let ?cs = "map code_of [0..<length ?S]"
  let ?res = "\<lparr>grid = map (map (map_of (zip (map fst ?S) ?cs))) (chunk w h (map (hex_of ?P) pxs)),
          colorMap = zip ?cs (map fst ?S), colorCounts = zip ?cs (map snd ?S),
          numColors = length ?S\<rparr>"
  from len have le: "h * w \<le> length pxs" by simp
  have r: "processImage pxs h w maxColors = Inr ?res" by (rule processImage_ok [OF le])
  have l1: "length ?cs = length (map snd ?S)" and l2: "length ?cs = length (map fst ?S)" by simp_all
  have k1: "map fst (zip ?cs (map snd ?S)) = ?cs" by (rule map_fst_zip [OF l1])
  have k2: "map fst (zip ?cs (map fst ?S)) = ?cs" by (rule map_fst_zip [OF l2])
  have v1: "map snd (zip ?cs (map snd ?S)) = map snd ?S" by (rule map_snd_zip [OF l1])
  have d: "distinct (map fst (colorCounts ?res))"
    using distinct_codes [of "length ?S"] by (simp only: result.simps k1)
  have s: "sum_list (map snd (colorCounts ?res)) = h * w"
    using ranked_sum [of ?H] scan_length [OF le, of maxColors] by (simp only: result.simps v1)
  have g: "length (grid ?res) = h" by (simp add: chunk_length)
  have "set (map fst (colorMap ?res)) = set ?cs" by (simp only: result.simps k2)
  then have f1: "fst ` set (colorMap ?res) = set ?cs" by (simp only: set_map)
  have "set (map fst (colorCounts ?res)) = set ?cs" by (simp only: result.simps k1)
  then have f2: "fst ` set (colorCounts ?res) = set ?cs" by (simp only: set_map)
  have c: "length row = w \<and> (\<forall>cell \<in> set row. \<exists>code. cell = Some code
                \<and> code \<in> fst ` set (colorMap ?res) \<and> code \<in> fst ` set (colorCounts ?res))"
    if row: "row \<in> set (grid ?res)" for row
  proof -
    from row obtain hrow where hr: "hrow \<in> set (chunk w h (map (hex_of ?P) pxs))"
      and rw: "row = map (map_of (zip (map fst ?S) ?cs)) hrow" by auto
    from chunk_rows [of h w "map (hex_of ?P) pxs"] le hr have "length hrow = w" by simp
    with rw have lw: "length row = w" by simp
    have "\<exists>code. cell = Some code \<and> code \<in> set ?cs" if cell: "cell \<in> set row" for cell
    proof -
      from cell rw obtain hex where hx: "hex \<in> set hrow" and ce: "cell = map_of (zip (map fst ?S) ?cs) hex"
        by auto
      from chunk_cells [OF hr hx] have "hex \<in> set ?H" by (simp add: scan_def take_map)
      then have "hex \<in> set (map fst ?S)" by (simp only: ranked_keys_set)
      from zip_codes_keys [OF l2 [symmetric] this] ce show ?thesis by auto
    qed
    with lw show ?thesis unfolding f1 f2 by blast
  qed
  show ?thesis
  proof (rule exI [of _ ?res], intro conjI ballI)
    show "processImage pxs h w maxColors = Inr ?res" by (rule r)
    show "distinct (map fst (colorCounts ?res))" by (rule d)
    show "sum_list (map snd (colorCounts ?res)) = h * w" by (rule s)
    show "length (grid ?res) = h" by (rule g)
    show "length row = w" if "row \<in> set (grid ?res)" for row using c [OF that] by (rule conjunct1)
    show "\<exists>code. cell = Some code
                \<and> code \<in> fst ` set (colorMap ?res) \<and> code \<in> fst ` set (colorCounts ?res)"
      if "row \<in> set (grid ?res)" "cell \<in> set row" for row cell
      using c [OF that(1)] that(2) by blast
  qed
qed

theorem C3_witness:
  "length scenario = 2 * 2
   \<and> (\<exists>res. processImage scenario 2 2 2 = Inr res
     \<and> distinct (map fst (colorCounts res))
     \<and> sum_list (map snd (colorCounts res)) = 2 * 2
     \<and> length (grid res) = 2
     \<and> (\<forall>row \<in> set (grid res). length row = 2
          \<and> (\<forall>cell \<in> set row. \<exists>code. cell = Some code
                \<and> code \<in> fst ` set (colorMap res) \<and> code \<in> fst ` set (colorCounts res))))"
proof -
  have l: "length scenario = 2 * 2" by (simp add: scenario_def)
  from l C3_counts_and_codes [OF l, where maxColors = 2] show ?thesis by (rule conjI)
qed

text \<open>
  C4: for a non-empty buffer of \<open>rows * cols\<close> pixels and \<open>maxColors \<ge> 1\<close>, \<open>numColors\<close> (the
  size of \<open>colorMap\<close>, the number of distinct keys of the scan) is at most the palette
  size, which is at most \<open>maxColors\<close>.
\<close>

theorem C4_numColors_bound:
  assumes ne: "pxs \<noteq> []" and len: "length pxs = h * w" and m: "1 \<le> maxColors"
  shows "\<exists>res. processImage pxs h w maxColors = Inr res
     \<and> numColors res = length (colorMap res)
     \<and> numColors res = card (set (scan pxs h w maxColors))
     \<and> numColors res \<le> length (medianCut pxs maxColors)
     \<and> int (numColors res) \<le> maxColors"
proof -
  let ?P = "medianCut pxs maxColors"
  let ?H = "scan pxs h w maxColors"
  let ?S = "ranked ?H"
  let ?cs = "map code_of [0..<length ?S]"
  let ?res = "\<lparr>grid = map (map (map_of (zip (map fst ?S) ?cs))) (chunk w h (map (hex_of ?P) pxs)),
          colorMap = zip ?cs (map fst ?S), colorCounts = zip ?cs (map snd ?S),
          numColors = length ?S\<rparr>"
  from len have le: "h * w \<le> length pxs" by simp
  have r: "processImage pxs h w maxColors = Inr ?res" by (rule processImage_ok [OF le])
  have n1: "numColors ?res = length (colorMap ?res)" by simp
  have n2: "numColors ?res = card (set ?H)" by (simp add: ranked_length_card)
  have "card (set ?H) \<le> card (rgbToHex ` set ?P)"
    by (rule card_mono [OF _ scan_subset [OF ne]]) simp
  also have "\<dots> \<le> card (set ?P)" by (rule card_image_le) simp
  also have "\<dots> \<le> length ?P" by (rule card_length)
  finally have n3: "numColors ?res \<le> length ?P" by (simp only: n2)
  from n3 medianCut_length [OF m, of pxs] have n4: "int (numColors ?res) \<le> maxColors" by linarith
  show ?thesis
  proof (rule exI [of _ ?res], intro conjI)
    show "processImage pxs h w maxColors = Inr ?res" by (rule r)
    show "numColors ?res = length (colorMap ?res)" by (rule n1)
    show "numColors ?res = card (set ?H)" by (rule n2)
    show "numColors ?res \<le> length ?P" by (rule n3)
    show "int (numColors ?res) \<le> maxColors" by (rule n4)
  qed
qed

theorem C4_witness:
  "two_grey \<noteq> [] \<and> length two_grey = 1 * 2 \<and> (1 :: int) \<le> 2
   \<and> (\<exists>res. processImage two_grey 1 2 2 = Inr res
     \<and> numColors res = length (colorMap res)
     \<and> numColors res = card (set (scan two_grey 1 2 2))
     \<and> numColors res \<le> length (medianCut two_grey 2)
     \<and> int (numColors res) \<le> 2)"
proof -
  have n: "two_grey \<noteq> []" and l: "length two_grey = 1 * 2" by (simp_all add: two_grey_def)
  have m: "(1 :: int) \<le> 2" by simp
  from n l m C4_numColors_bound [OF n l m] show ?thesis by blast
qed

text \<open>
  C5: for a non-empty buffer of \<open>rows * cols\<close> pixels and \<open>maxColors = 1\<close> the palette is the
  one colour whose channels are the arithmetic means of the channels of all input pixels,
  each rounded to the nearest integer with a tie going up (\<open>mean_round\<close>, over the reals);
  the result has the single code \<open>C01\<close>, mapped to that colour, in every cell.
\<close>

theorem C5_single_color_mean:
  assumes ne: "pxs \<noteq> []" and len: "length pxs = h * w"
  shows "medianCut pxs 1 =
       [RGB (mean_round (map fst pxs)) (mean_round (map (\<lambda>p. fst (snd p)) pxs))
            (mean_round (map (\<lambda>p. snd (snd p)) pxs))]
     \<and> processImage pxs h w 1 =
       Inr \<lparr>grid = replicate h (replicate w (Some ''C01'')),
            colorMap = [(''C01'', rgbToHex (RGB (mean_round (map fst pxs))
                                               (mean_round (map (\<lambda>p. fst (snd p)) pxs))
                                               (mean_round (map (\<lambda>p. snd (snd p)) pxs))))],
            colorCounts = [(''C01'', h * w)],
            numColors = 1\<rparr>"
proof -
  let ?c = "RGB (mean_round (map fst pxs)) (mean_round (map (\<lambda>p. fst (snd p)) pxs))
            (mean_round (map (\<lambda>p. snd (snd p)) pxs))"
  have p: "medianCut pxs 1 = [?c]"
    using medianCut_one [OF ne, of 1] average_mean [OF ne] by simp
  have k: "\<forall>p \<in> set pxs. hex_of (medianCut pxs 1) p = rgbToHex ?c"
    by (simp only: p hex_of_single) simp
  from p processImage_uniform [OF ne len k] show ?thesis by (rule conjI)
qed

theorem C5_witness:
  "scenario \<noteq> [] \<and> length scenario = 2 * 2
   \<and> medianCut scenario 1 = [RGB 128 64 64]
   \<and> processImage scenario 2 2 1 =
       Inr \<lparr>grid = [[Some ''C01'', Some ''C01''], [Some ''C01'', Some ''C01'']],
            colorMap = [(''C01'', ''#804040'')],
            colorCounts = [(''C01'', 4)],
            numColors = 1\<rparr>"
proof -
  have n: "scenario \<noteq> []" and l: "length scenario = 2 * 2" by (simp_all add: scenario_def)
  have e1: "mean_round (map fst scenario) = 128"
    by (simp add: mean_round_eq scenario_def round_div_def)
  have e2: "mean_round (map (\<lambda>p. fst (snd p)) scenario) = 64"
    by (simp add: mean_round_eq scenario_def round_div_def)
  have e3: "mean_round (map (\<lambda>p. snd (snd p)) scenario) = 64"
    by (simp add: mean_round_eq scenario_def round_div_def)
  have g: "replicate 2 (replicate 2 (Some ''C01'')) = [[Some ''C01'', Some ''C01''], [Some ''C01'', Some ''C01'']]"
    by (simp add: numeral_2_eq_2)
  from C5_single_color_mean [OF n l] n l show ?thesis
    by (simp only: e1 e2 e3 hex_804040 g) simp
qed

text \<open>
  C6: for a non-empty buffer of \<open>rows * cols\<close> pixels that all have the value \<open>(r, g, b)\<close>,
  and \<open>maxColors > 1\<close>, every palette entry is \<open>(r, g, b)\<close> (however many boxes the loop
  made) and the result has the single code \<open>C01\<close>: \<open>numColors = 1\<close>.
\<close>

theorem C6_uniform_collapse:
  assumes ne: "pxs \<noteq> []" and u: "set pxs \<subseteq> {(r, g, b)}" and len: "length pxs = h * w"
    and m: "1 < maxColors"
  shows "set (medianCut pxs maxColors) = {RGB r g b}
     \<and> processImage pxs h w maxColors =
       Inr \<lparr>grid = replicate h (replicate w (Some ''C01'')),
            colorMap = [(''C01'', rgbToHex (RGB r g b))],
            colorCounts = [(''C01'', h * w)],
            numColors = 1\<rparr>"
proof -
  have p: "set (medianCut pxs maxColors) = {RGB r g b}" by (rule medianCut_uniform [OF ne u])
  have "classify (medianCut pxs maxColors) q = RGB r g b" for q
    using classify_mem [OF medianCut_nonempty [OF ne], of maxColors q] p by simp
  then have k: "\<forall>q \<in> set pxs. hex_of (medianCut pxs maxColors) q = rgbToHex (RGB r g b)"
    by (simp add: hex_of_def)
  from p processImage_uniform [OF ne len k] show ?thesis by (rule conjI)
qed

theorem C6_witness:
  "two_grey \<noteq> [] \<and> set two_grey \<subseteq> {(5, 5, 5)} \<and> length two_grey = 1 * 2 \<and> (1 :: int) < 2
   \<and> medianCut two_grey 2 = [RGB 5 5 5, RGB 5 5 5]
   \<and> set (medianCut two_grey 2) = {RGB 5 5 5}
   \<and> processImage two_grey 1 2 2 =
       Inr \<lparr>grid = [[Some ''C01'', Some ''C01'']],
            colorMap = [(''C01'', ''#050505'')],
            colorCounts = [(''C01'', 2)],
            numColors = 1\<rparr>"
proof -
  have n: "two_grey \<noteq> []" and u: "set two_grey \<subseteq> {(5, 5, 5)}" and l: "length two_grey = 1 * 2"
    by (simp_all add: two_grey_def)
  have m: "(1 :: int) < 2" by simp
  have g: "replicate 1 (replicate 2 (Some ''C01'')) = [[Some ''C01'', Some ''C01'']]"
    by (simp add: numeral_2_eq_2)
  from C6_uniform_collapse [OF n u l m] n u l two_grey_palette show ?thesis
    by (simp only: hex_050505 g) simp
qed

text \<open>
  C7: a colour of the palette, classified against that palette, comes back as itself; and
  for any pixel and any palette that holds a colour, the entry returned is the first one
  at the least distance: every colour before it in the palette is strictly farther, every
  colour after it at least as far, so of several equidistant entries the first wins.
\<close>

theorem C7_first_nearest:
  "(RGB cr cg cb \<in> set palette \<longrightarrow> findNearestColor cr cg cb palette = Some (RGB cr cg cb))
   \<and> (RGB cr cg cb \<in> set palette \<longrightarrow>
        (\<exists>before pr pg pb after. palette = before @ RGB pr pg pb # after
           \<and> findNearestColor r g b palette = Some (RGB pr pg pb)
           \<and> first_least r g b before pr pg pb after))"
proof (intro conjI impI)
  assume "RGB cr cg cb \<in> set palette"
  then show "findNearestColor cr cg cb palette = Some (RGB cr cg cb)" by (rule findNearestColor_self)
next
  assume "RGB cr cg cb \<in> set palette"
  then show "\<exists>before pr pg pb after. palette = before @ RGB pr pg pb # after
           \<and> findNearestColor r g b palette = Some (RGB pr pg pb)
           \<and> first_least r g b before pr pg pb after"
    by (rule findNearestColor_first_least)
qed

theorem C7_witness:
  "RGB 2 0 0 \<in> set [RGB 0 0 0, RGB 2 0 0]
   \<and> findNearestColor 2 0 0 [RGB 0 0 0, RGB 2 0 0] = Some (RGB 2 0 0)
   \<and> (\<exists>before pr pg pb after. [RGB 0 0 0, RGB 2 0 0] = before @ RGB pr pg pb # after
           \<and> findNearestColor 1 0 0 [RGB 0 0 0, RGB 2 0 0] = Some (RGB pr pg pb)
           \<and> first_least 1 0 0 before pr pg pb after)
   \<and> findNearestColor 1 0 0 [RGB 0 0 0, RGB 2 0 0] = Some (RGB 0 0 0)
   \<and> sq_dist 1 0 0 0 0 0 = sq_dist 1 0 0 2 0 0"
proof -
  have m: "RGB 2 0 0 \<in> set [RGB 0 0 0, RGB 2 0 0]" by simp
  note t = C7_first_nearest [of 2 0 0 "[RGB 0 0 0, RGB 2 0 0]" 1 0 0]
  note a = t [THEN conjunct1, THEN mp, OF m]
  note b = t [THEN conjunct2, THEN mp, OF m]
  note c = equidistant_example [THEN conjunct1]
  note d = equidistant_example [THEN conjunct2]
  show ?thesis
  proof (intro conjI)
    show "RGB 2 0 0 \<in> set [RGB 0 0 0, RGB 2 0 0]" by (rule m)
    show "findNearestColor 2 0 0 [RGB 0 0 0, RGB 2 0 0] = Some (RGB 2 0 0)" by (rule a)
    show "\<exists>before pr pg pb after. [RGB 0 0 0, RGB 2 0 0] = before @ RGB pr pg pb # after
           \<and> findNearestColor 1 0 0 [RGB 0 0 0, RGB 2 0 0] = Some (RGB pr pg pb)
           \<and> first_least 1 0 0 before pr pg pb after" by (rule b)
    show "findNearestColor 1 0 0 [RGB 0 0 0, RGB 2 0 0] = Some (RGB 0 0 0)" by (rule c)
    show "sq_dist 1 0 0 0 0 0 = sq_dist 1 0 0 2 0 0" by (rule d)
  qed
qed

text \<open>
  C8: for a buffer of \<open>rows * cols\<close> pixels the codes \<open>C01\<close>, \<open>C02\<close>, ... go, in this order,
  to the distinct keys of the row-major scan sorted by descending occurrence count, a tie
  between equal counts going to the key first seen earlier (\<open>ranks_before\<close>); the count
  stored for a code is the number of occurrences of its key, and every grid cell holds the
  code of the key scanned at that cell. The key of a pixel is \<open>rgbToHex\<close> of the palette
  colour it is classified to, and for a buffer of bytes distinct palette colours have
  distinct keys.
\<close>

theorem C8_code_order:
  assumes len: "length pxs = h * w"
  shows "scan pxs h w maxColors =
       map (\<lambda>p. rgbToHex (classify (medianCut pxs maxColors) p)) pxs
   \<and> (list_all valid_pixel pxs \<longrightarrow> inj_on rgbToHex (set (medianCut pxs maxColors)))
   \<and> (\<exists>res. processImage pxs h w maxColors = Inr res
     \<and> map fst (colorMap res) = map code_of [0..<numColors res]
     \<and> distinct (map snd (colorMap res))
     \<and> set (map snd (colorMap res)) = set (scan pxs h w maxColors)
     \<and> sorted_wrt (ranks_before (scan pxs h w maxColors)) (map snd (colorMap res))
     \<and> colorCounts res =
         map (\<lambda>(code, hex). (code, count_list (scan pxs h w maxColors) hex)) (colorMap res)
     \<and> concat (grid res) =
         map (map_of (map (\<lambda>(code, hex). (hex, code)) (colorMap res))) (scan pxs h w maxColors))"
proof -
  let ?P = "medianCut pxs maxColors"
  let ?H = "scan pxs h w maxColors"
  let ?S = "ranked ?H"
  let ?ks = "map fst ?S"
  let ?cs = "map code_of [0..<length ?S]"
  let ?res = "\<lparr>grid = map (map (map_of (zip ?ks ?cs))) (chunk w h (map (hex_of ?P) pxs)),
          colorMap = zip ?cs ?ks, colorCounts = zip ?cs (map snd ?S),
          numColors = length ?S\<rparr>"
  from len have le: "h * w \<le> length pxs" by simp
  have r: "processImage pxs h w maxColors = Inr ?res" by (rule processImage_ok [OF le])
  have l: "length ?cs = length ?ks" by simp
  have k1: "map fst (zip ?cs ?ks) = ?cs" by (rule map_fst_zip [OF l])
  have k2: "map snd (zip ?cs ?ks) = ?ks" by (rule map_snd_zip [OF l])
  have sw: "map (\<lambda>(code, hex). (hex, code)) (zip ?cs ?ks) = zip ?ks ?cs"
    by (rule nth_equalityI) simp_all
  have c1: "map fst (colorMap ?res) = map code_of [0..<numColors ?res]"
    by (simp only: result.select_convs k1)
  have c2: "distinct (map snd (colorMap ?res))"
    by (simp only: result.select_convs k2 ranked_keys_distinct)
  have c3: "set (map snd (colorMap ?res)) = set ?H"
    by (simp only: result.select_convs k2 ranked_keys_set)
  have c4: "sorted_wrt (ranks_before ?H) (map snd (colorMap ?res))"
    by (simp only: result.select_convs k2 ranked_ranks)
  have "zip ?cs (map snd ?S) = zip ?cs (map (count_list ?H) ?ks)"
    by (simp only: ranked_snd [symmetric])
  also have "\<dots> = map (\<lambda>(code, hex). (code, count_list ?H hex)) (zip ?cs ?ks)"
    by (rule zip_map2)
  finally have c5: "colorCounts ?res = map (\<lambda>(code, hex). (code, count_list ?H hex)) (colorMap ?res)"
    by (simp only: result.select_convs)
  have "concat (map (map (map_of (zip ?ks ?cs))) (chunk w h (map (hex_of ?P) pxs)))
      = map (map_of (zip ?ks ?cs)) (take (h * w) (map (hex_of ?P) pxs))"
    by (rule concat_chunk_map)
  also have "take (h * w) (map (hex_of ?P) pxs) = ?H" by (simp only: scan_def take_map)
  finally have c6: "concat (grid ?res) =
      map (map_of (map (\<lambda>(code, hex). (hex, code)) (colorMap ?res))) ?H"
    by (simp only: result.select_convs sw)
  have c7: "?H = map (\<lambda>p. rgbToHex (classify ?P p)) pxs"
    using len by (simp add: scan_def hex_of_def [abs_def])
  have c8: "list_all valid_pixel pxs \<longrightarrow> inj_on rgbToHex (set ?P)"
    using medianCut_keys_inj [of pxs maxColors] by (simp add: list_all_iff)
  have "\<exists>res. processImage pxs h w maxColors = Inr res
     \<and> map fst (colorMap res) = map code_of [0..<numColors res]
     \<and> distinct (map snd (colorMap res))
     \<and> set (map snd (colorMap res)) = set ?H
     \<and> sorted_wrt (ranks_before ?H) (map snd (colorMap res))
     \<and> colorCounts res = map (\<lambda>(code, hex). (code, count_list ?H hex)) (colorMap res)
     \<and> concat (grid res) = map (map_of (map (\<lambda>(code, hex). (hex, code)) (colorMap res))) ?H"
  proof (rule exI [of _ ?res], intro conjI)
    show "processImage pxs h w maxColors = Inr ?res" by (rule r)
    show "map fst (colorMap ?res) = map code_of [0..<numColors ?res]" by (rule c1)
    show "distinct (map snd (colorMap ?res))" by (rule c2)
    show "set (map snd (colorMap ?res)) = set ?H" by (rule c3)
    show "sorted_wrt (ranks_before ?H) (map snd (colorMap ?res))" by (rule c4)
    show "colorCounts ?res = map (\<lambda>(code, hex). (code, count_list ?H hex)) (colorMap ?res)"
      by (rule c5)
    show "concat (grid ?res) = map (map_of (map (\<lambda>(code, hex). (hex, code)) (colorMap ?res))) ?H"
      by (rule c6)
  qed
  with c7 c8 show ?thesis by (intro conjI)
qed

theorem C8_witness:
  "length white_black_black = 1 * 3
   \<and> list_all valid_pixel white_black_black
   \<and> scan white_black_black 1 3 2 =
       map (\<lambda>p. rgbToHex (classify (medianCut white_black_black 2) p)) white_black_black
   \<and> inj_on rgbToHex (set (medianCut white_black_black 2))
   \<and> (\<exists>res. processImage white_black_black 1 3 2 = Inr res
     \<and> map fst (colorMap res) = map code_of [0..<numColors res]
     \<and> distinct (map snd (colorMap res))
     \<and> set (map snd (colorMap res)) = set (scan white_black_black 1 3 2)
     \<and> sorted_wrt (ranks_before (scan white_black_black 1 3 2)) (map snd (colorMap res))
     \<and> colorCounts res =
         map (\<lambda>(code, hex). (code, count_list (scan white_black_black 1 3 2) hex)) (colorMap res)
     \<and> concat (grid res) =
         map (map_of (map (\<lambda>(code, hex). (hex, code)) (colorMap res))) (scan white_black_black 1 3 2))
   \<and> scan white_black_black 1 3 2 = [''#808080'', ''#000000'', ''#000000'']
   \<and> processImage white_black_black 1 3 2 =
     Inr \<lparr>grid = [[Some ''C02'', Some ''C01'', Some ''C01'']],
          colorMap = [(''C01'', ''#000000''), (''C02'', ''#808080'')],
          colorCounts = [(''C01'', 2), (''C02'', 1)],
          numColors = 2\<rparr>"
proof -
  have l: "length white_black_black = 1 * 3" by (simp add: white_black_black_def)
  have v: "list_all valid_pixel white_black_black" by (simp add: white_black_black_def)
  note t = C8_code_order [OF l, where maxColors = 2]
  note t1 = t [THEN conjunct1]
  note t2 = t [THEN conjunct2, THEN conjunct1, THEN mp, OF v]
  note t3 = t [THEN conjunct2, THEN conjunct2]
  from l v t1 t2 t3 white_black_black_scan white_black_black_result show ?thesis by (intro conjI)
qed

text \<open>
  C9: the partitioning loop terminates on every input. The loop without a termination
  argument returns (the value of the total function \<open>medianCut_loop\<close>), and so does the
  whole of \<open>medianCut\<close>; a pass of the body that does not break makes the list one box
  longer; a list no longer than \<open>maxColors\<close> never grows past it; on a reachable list the
  body breaks exactly when no box holds more than one pixel; and the loop ends with
  \<open>maxColors\<close> boxes reached or with nothing left to split.
\<close>

theorem C9_medianCut_terminates:
  "medianCut_while maxColors boxes = Some (medianCut_loop maxColors boxes)
   \<and> medianCut_partial pxs maxColors = Some (medianCut pxs maxColors)
   \<and> (\<forall>boxes'. loop_body boxes = Some boxes' \<longrightarrow> length boxes' = length boxes + 1)
   \<and> (int (length boxes) \<le> maxColors \<longrightarrow> int (length (medianCut_loop maxColors boxes)) \<le> maxColors)
   \<and> (reachable pxs maxColors boxes \<longrightarrow>
        (loop_body boxes = None \<longleftrightarrow> (\<forall>b \<in> set boxes. length (pixels b) \<le> 1)))
   \<and> (maxColors \<le> int (length (medianCut_loop maxColors boxes))
        \<or> loop_body (medianCut_loop maxColors boxes) = None)"
proof (intro conjI allI impI)
  show "medianCut_while maxColors boxes = Some (medianCut_loop maxColors boxes)"
    by (rule medianCut_while_total)
  show "medianCut_partial pxs maxColors = Some (medianCut pxs maxColors)"
    by (simp add: medianCut_partial_def medianCut_def medianCut_while_total)
  show "length boxes' = length boxes + 1" if "loop_body boxes = Some boxes'" for boxes'
    using that by (rule loop_body_length)
  show "int (length (medianCut_loop maxColors boxes)) \<le> maxColors" if "int (length boxes) \<le> maxColors"
    using that by (rule medianCut_loop_length_le)
  show "loop_body boxes = None \<longleftrightarrow> (\<forall>b \<in> set boxes. length (pixels b) \<le> 1)"
    if "reachable pxs maxColors boxes"
    by (rule loop_body_None_iff [OF reachable_built [OF that]])
  show "maxColors \<le> int (length (medianCut_loop maxColors boxes))
        \<or> loop_body (medianCut_loop maxColors boxes) = None"
    by (rule medianCut_loop_stops)
qed

theorem C9_witness:
  "reachable scenario 2 [ColorBox_new scenario]
   \<and> int (length [ColorBox_new scenario]) \<le> 2
   \<and> loop_body [ColorBox_new scenario] =
       Some [ColorBox_new [(0, 0, 0), (0, 0, 0)], ColorBox_new [(255, 255, 255), (255, 0, 0)]]
   \<and> length [ColorBox_new [(0, 0, 0), (0, 0, 0)], ColorBox_new [(255, 255, 255), (255, 0, 0)]]
       = length [ColorBox_new scenario] + 1
   \<and> medianCut_while 2 [ColorBox_new scenario] = Some (medianCut_loop 2 [ColorBox_new scenario])
   \<and> medianCut_partial scenario 2 = Some (medianCut scenario 2)
   \<and> int (length (medianCut_loop 2 [ColorBox_new scenario])) \<le> 2
   \<and> loop_body [ColorBox_new scenario] \<noteq> None"
proof -
  have r: "reachable scenario 2 [ColorBox_new scenario]"
    by (rule reachable.start) (simp add: scenario_def)
  have l: "int (length [ColorBox_new scenario]) \<le> 2" by simp
  from C9_medianCut_terminates [of 2 "[ColorBox_new scenario]" scenario] r l scenario_body
  show ?thesis by simp
qed

text \<open>
  C10: splitting a box of \<open>n \<ge> 2\<close> pixels gives a first child of \<open>n div 2 \<ge> 1\<close> pixels and a
  second of \<open>n - n div 2 \<ge> 1\<close>; the loop body only splits a box with more than one pixel;
  so every box of every reachable list is non-empty and its average is a real colour, the
  final list of the loop is reachable, and no palette entry is the \<open>NaN\<close> colour of a
  division by zero.
\<close>

theorem C10_boxes_nonempty:
  "(2 \<le> length (pixels box) \<and> ColorBox_split box = (box1, box2) \<longrightarrow>
      length (pixels box1) = length (pixels box) div 2 \<and> 1 \<le> length (pixels box1)
      \<and> length (pixels box2) = length (pixels box) - length (pixels box) div 2
      \<and> 1 \<le> length (pixels box2))
   \<and> (loop_body boxes = Some boxes' \<longrightarrow>
        (\<exists>k < length boxes. 1 < length (pixels (boxes ! k))
           \<and> boxes' = splice_at k (fst (ColorBox_split (boxes ! k))) (snd (ColorBox_split (boxes ! k))) boxes))
   \<and> (reachable pxs maxColors boxes \<and> b \<in> set boxes \<longrightarrow> pixels b \<noteq> [] \<and> average b \<noteq> NaN_color)
   \<and> (pxs \<noteq> [] \<longrightarrow> reachable pxs maxColors (medianCut_loop maxColors [ColorBox_new pxs]))
   \<and> NaN_color \<notin> set (medianCut pxs maxColors)"
proof (intro conjI impI)
  assume a: "2 \<le> length (pixels box) \<and> ColorBox_split box = (box1, box2)"
  then have sp: "ColorBox_split box = (box1, box2)" and n: "2 \<le> length (pixels box)" by simp_all
  from split_lengths [OF sp]
  have l1: "length (pixels box1) = length (pixels box) div 2"
    and l2: "length (pixels box2) = length (pixels box) - length (pixels box) div 2" by simp_all
  show "length (pixels box1) = length (pixels box) div 2" by (rule l1)
  show "length (pixels box2) = length (pixels box) - length (pixels box) div 2" by (rule l2)
  from n show "1 \<le> length (pixels box1)" unfolding l1 by presburger
  from n show "1 \<le> length (pixels box2)" unfolding l2 by presburger
next
  assume "loop_body boxes = Some boxes'"
  then obtain k b1 b2 where "k < length boxes" "1 < length (pixels (boxes ! k))"
    "ColorBox_split (boxes ! k) = (b1, b2)" "boxes' = splice_at k b1 b2 boxes"
    by (rule loop_body_cases)
  then show "\<exists>k < length boxes. 1 < length (pixels (boxes ! k))
      \<and> boxes' = splice_at k (fst (ColorBox_split (boxes ! k))) (snd (ColorBox_split (boxes ! k))) boxes"
    by auto
next
  assume a: "reachable pxs maxColors boxes \<and> b \<in> set boxes"
  with reachable_built [of pxs maxColors boxes] have "built b" by simp
  then show "pixels b \<noteq> []" "average b \<noteq> NaN_color"
    by (simp_all add: built_def average_not_NaN)
next
  assume "pxs \<noteq> []"
  then show "reachable pxs maxColors (medianCut_loop maxColors [ColorBox_new pxs])"
    by (intro reachable_loop reachable.start)
next
  show "NaN_color \<notin> set (medianCut pxs maxColors)" by (rule medianCut_no_NaN)
qed

theorem C10_witness:
  "2 \<le> length (pixels (ColorBox_new scenario))
   \<and> ColorBox_split (ColorBox_new scenario) =
       (ColorBox_new [(0, 0, 0), (0, 0, 0)], ColorBox_new [(255, 255, 255), (255, 0, 0)])
   \<and> length (pixels (ColorBox_new [(0, 0, 0), (0, 0, 0)])) = 2
   \<and> length (pixels (ColorBox_new [(255, 255, 255), (255, 0, 0)])) = 2
   \<and> reachable scenario 2 [ColorBox_new scenario]
   \<and> ColorBox_new scenario \<in> set [ColorBox_new scenario]
   \<and> pixels (ColorBox_new scenario) \<noteq> []
   \<and> average (ColorBox_new scenario) \<noteq> NaN_color
   \<and> scenario \<noteq> []
   \<and> reachable scenario 2 (medianCut_loop 2 [ColorBox_new scenario])
   \<and> NaN_color \<notin> set (medianCut scenario 2)"
proof -
  have r: "reachable scenario 2 [ColorBox_new scenario]"
    by (rule reachable.start) (simp add: scenario_def)
  have n: "scenario \<noteq> []" by (simp add: scenario_def)
  have l: "length scenario = 4" by (simp add: scenario_def)
  from C10_boxes_nonempty [of "ColorBox_new scenario" "ColorBox_new [(0, 0, 0), (0, 0, 0)]"
      "ColorBox_new [(255, 255, 255), (255, 0, 0)]" "[ColorBox_new scenario]"
      "[ColorBox_new [(0, 0, 0), (0, 0, 0)], ColorBox_new [(255, 255, 255), (255, 0, 0)]]"
      scenario 2 "ColorBox_new scenario"]
    r n l scenario_split scenario_body
  show ?thesis by simp
qed

end
